theory Spec2Isabelle
  imports Main "HOL-Library.List_Lexorder" "HOL-Library.Option_ord"
begin

section \<open>Python values that cross the storage and presenter boundaries\<close>

text \<open>
  The rows of the catalog queries are Python dicts and the logged parameters are a Python
  dict; their values are strings, integers or \<^verbatim>\<open>None\<close>.
\<close>

datatype pyval = PStr string | PInt int | PNone

type_synonym pydict = "(string \<times> pyval) list"

text \<open>\<^verbatim>\<open>d.get(k)\<close>: the value stored under the key, or nothing.\<close>

definition dict_get :: "pydict \<Rightarrow> string \<Rightarrow> pyval option" where
  "dict_get d k = map_of d k"

section \<open>The catalog store (mysql\_connector.py, sql\_queries.py)\<close>

subsection \<open>Tables\<close>

text \<open>
  The relational schema the queries read: film, category, actor and the two link tables.
  \<^verbatim>\<open>release_year\<close> is nullable.
\<close>

record film =
  film_id :: nat
  title :: string
  release_year :: "int option"
  rating :: string

record category =
  category_id :: nat
  name :: string

record actor =
  actor_id :: nat
  first_name :: string
  last_name :: string

record film_category =
  fc_film_id :: nat
  fc_category_id :: nat

record film_actor =
  fa_actor_id :: nat
  fa_film_id :: nat

record catalog =
  films :: "film list"
  film_categories :: "film_category list"
  categories :: "category list"
  film_actors :: "film_actor list"
  actors :: "actor list"

text \<open>
  What \<^verbatim>\<open>get_db_connection\<close> and \<^verbatim>\<open>cursor.execute\<close> meet: a server that
  cannot be reached (the connection is \<^verbatim>\<open>None\<close>), one that answers every statement
  with a \<^verbatim>\<open>MySQLError\<close>, or one that serves a catalog.
\<close>

datatype server = Unreachable | Failing | Serving catalog

subsection \<open>SQL aggregates\<close>

text \<open>\<^verbatim>\<open>MIN\<close> and \<^verbatim>\<open>MAX\<close> skip NULLs and are NULL over no value.\<close>

definition non_null :: "'a option list \<Rightarrow> 'a list" where
  "non_null vs = [v. Some v \<leftarrow> vs]"

definition sql_min :: "int option list \<Rightarrow> int option" where
  "sql_min vs = (case non_null vs of [] \<Rightarrow> None | x # xs \<Rightarrow> Some (fold min xs x))"

definition sql_max :: "int option list \<Rightarrow> int option" where
  "sql_max vs = (case non_null vs of [] \<Rightarrow> None | x # xs \<Rightarrow> Some (fold max xs x))"

subsection \<open>execute\_query\<close>

text \<open>
  \<^verbatim>\<open>execute_query(query, params, fetch_all)\<close>: no connection gives \<^verbatim>\<open>[]\<close>, a
  \<^verbatim>\<open>MySQLError\<close> gives \<^verbatim>\<open>[]\<close>, otherwise \<^verbatim>\<open>fetchall()\<close> or
  \<^verbatim>\<open>fetchone()\<close>. A query is modelled by the rows it selects from a catalog,
  \<^verbatim>\<open>None\<close> standing for a statement the server rejects.
\<close>

definition execute_query_all :: "server \<Rightarrow> (catalog \<Rightarrow> 'r list option) \<Rightarrow> 'r list" where
  "execute_query_all srv query =
     (case srv of
        Unreachable \<Rightarrow> []
      | Failing \<Rightarrow> []
      | Serving db \<Rightarrow> (case query db of None \<Rightarrow> [] | Some rows \<Rightarrow> rows))"

text \<open>
  With \<^verbatim>\<open>fetch_all=False\<close> the value is \<^verbatim>\<open>[]\<close> on a failure, \<^verbatim>\<open>None\<close> when
  the statement selects no row, and the first row otherwise.
\<close>

datatype 'r fetched = EmptyList | NoRow | Row 'r

definition execute_query_one :: "server \<Rightarrow> (catalog \<Rightarrow> 'r list option) \<Rightarrow> 'r fetched" where
  "execute_query_one srv query =
     (case srv of
        Unreachable \<Rightarrow> EmptyList
      | Failing \<Rightarrow> EmptyList
      | Serving db \<Rightarrow>
          (case query db of
             None \<Rightarrow> EmptyList
           | Some [] \<Rightarrow> NoRow
           | Some (r # _) \<Rightarrow> Row r))"

subsection \<open>get\_year\_range\<close>

text \<open>
  \<^verbatim>\<open>SELECT MIN(release_year) AS min_year, MAX(release_year) AS max_year FROM film\<close>:
  an aggregate without GROUP BY selects exactly one row, also over an empty table.
\<close>

record year_row =
  min_year :: "int option"
  max_year :: "int option"

definition GET_YEAR_RANGE :: "catalog \<Rightarrow> year_row list option" where
  "GET_YEAR_RANGE db =
     Some [\<lparr>min_year = sql_min (map release_year (films db)),
            max_year = sql_max (map release_year (films db))\<rparr>]"

text \<open>
  \<^verbatim>\<open>return (result['min_year'], result['max_year']) if result else (0, 0)\<close>.
  A fetched row is a dict with two keys, hence truthy whatever its values are;
  \<^verbatim>\<open>[]\<close> and \<^verbatim>\<open>None\<close> are falsy. The components are Python values: an integer or
  \<^verbatim>\<open>None\<close>.
\<close>

definition get_year_range :: "server \<Rightarrow> int option \<times> int option" where
  "get_year_range srv =
     (case execute_query_one srv GET_YEAR_RANGE of
        Row result \<Rightarrow> (min_year result, max_year result)
      | EmptyList \<Rightarrow> (Some 0, Some 0)
      | NoRow \<Rightarrow> (Some 0, Some 0))"

subsection \<open>Collation and LIKE\<close>

text \<open>
  Modelled from the spec: the schema of the catalog is not part of the repository, and the
  spec says that titles are matched case-insensitively. The text columns therefore carry a
  case-insensitive collation, modelled as folding the ASCII capitals onto the small
  letters; comparison, LIKE and ORDER BY all go through it.
\<close>

definition fold_case :: "nat \<Rightarrow> nat" where
  "fold_case n = (if 65 \<le> n \<and> n \<le> 90 then n + 32 else n)"

definition collation_key :: "string \<Rightarrow> nat list" where
  "collation_key s = map (\<lambda>c. fold_case (of_char c)) s"

definition ci_eq :: "char \<Rightarrow> char \<Rightarrow> bool" where
  "ci_eq a b = (fold_case (of_char a) = fold_case (of_char b))"

text \<open>
  \<^verbatim>\<open>text LIKE pattern\<close>: \<^verbatim>\<open>%\<close> stands for any run of characters, \<^verbatim>\<open>_\<close> for any
  one character, and the backslash takes the next pattern character literally (a
  backslash that ends the pattern stands for itself).
\<close>

fun like_match :: "string \<Rightarrow> string \<Rightarrow> bool" where
  "like_match [] [] = True"
| "like_match [] (c # s) = False"
| "like_match (p # ps) [] = (p = CHR ''%'' \<and> like_match ps [])"
| "like_match (p # ps) (c # s) =
     (if p = CHR ''%'' then like_match ps (c # s) \<or> like_match (p # ps) s
      else if p = CHR ''_'' then like_match ps s
      else if p = CHR 0x5C then
        (case ps of
           [] \<Rightarrow> c = CHR 0x5C \<and> s = []
         | q # qs \<Rightarrow> ci_eq q c \<and> like_match qs s)
      else ci_eq p c \<and> like_match ps s)"

subsection \<open>The five-table join, GROUP BY and the selected row\<close>

record joined =
  j_film :: film
  j_category :: category
  j_actor :: actor

text \<open>
  \<^verbatim>\<open>FROM film f JOIN film_category fc USING(film_id) JOIN category c USING(category_id)
  JOIN film_actor fa USING(film_id) JOIN actor a USING(actor_id)\<close>: inner joins, one
  row per combination of a film, one of its category links whose category exists, and one
  of its actor links whose actor exists.
\<close>

definition film_join :: "catalog \<Rightarrow> joined list" where
  "film_join db =
     [\<lparr>j_film = f, j_category = c, j_actor = a\<rparr>.
        f \<leftarrow> films db,
        fc \<leftarrow> film_categories db, fc_film_id fc = film_id f,
        c \<leftarrow> categories db, category_id c = fc_category_id fc,
        fa \<leftarrow> film_actors db, fa_film_id fa = film_id f,
        a \<leftarrow> actors db, actor_id a = fa_actor_id fa]"

definition j_id :: "joined \<Rightarrow> nat" where
  "j_id r = film_id (j_film r)"

text \<open>
  \<^verbatim>\<open>GROUP BY f.film_id\<close>: one group per value of \<^verbatim>\<open>film_id\<close>, held as its first
  row and the rows that follow it. The columns that are not aggregated are read from the
  first row of the group. (A server that insists on every selected column being
  determined by the grouping column rejects the statement; that server is \<open>Failing\<close>.)
\<close>

type_synonym film_group = "joined \<times> joined list"

fun group_by_film_id :: "joined list \<Rightarrow> film_group list" where
  "group_by_film_id [] = []"
| "group_by_film_id (r # rs) =
     (r, filter (\<lambda>s. j_id s = j_id r) rs) #
     group_by_film_id (filter (\<lambda>s. j_id s \<noteq> j_id r) rs)"

definition group_id :: "film_group \<Rightarrow> nat" where
  "group_id g = j_id (fst g)"

definition group_film :: "film_group \<Rightarrow> film" where
  "group_film g = j_film (fst g)"

text \<open>\<^verbatim>\<open>CONCAT(a.first_name, ' ', a.last_name)\<close> and \<^verbatim>\<open>SEPARATOR ', '\<close>.\<close>

definition full_name :: "actor \<Rightarrow> string" where
  "full_name a = first_name a @ '' '' @ last_name a"

fun join_sep :: "string \<Rightarrow> string list \<Rightarrow> string" where
  "join_sep sep [] = []"
| "join_sep sep [x] = x"
| "join_sep sep (x # y # ys) = x @ sep @ join_sep sep (y # ys)"

text \<open>Duplicates dropped, the first occurrence of each value kept.\<close>

definition keep_first :: "'a list \<Rightarrow> 'a list" where
  "keep_first xs = rev (remdups (rev xs))"

text \<open>
  \<^verbatim>\<open>GROUP_CONCAT(DISTINCT CONCAT(...) ORDER BY a.last_name SEPARATOR ', ')\<close> over the
  actors of a group.
\<close>

definition GROUP_CONCAT_actors :: "actor list \<Rightarrow> string" where
  "GROUP_CONCAT_actors as =
     join_sep '', '' (keep_first (map full_name (sort_key (\<lambda>a. collation_key (last_name a)) as)))"

text \<open>The Film Record: one dict of the result, with the keys of the SELECT list.\<close>

record film_row =
  fr_title :: string
  fr_year :: "int option"
  fr_rating :: string
  fr_genre :: string
  fr_actors :: string

definition select_film_row :: "film_group \<Rightarrow> film_row" where
  "select_film_row g =
     \<lparr>fr_title = title (j_film (fst g)),
      fr_year = release_year (j_film (fst g)),
      fr_rating = rating (j_film (fst g)),
      fr_genre = name (j_category (fst g)),
      fr_actors = GROUP_CONCAT_actors (map j_actor (fst g # snd g))\<rparr>"

subsection \<open>SEARCH\_BY\_KEYWORD and search\_by\_keyword\<close>

text \<open>
  \<^verbatim>\<open>WHERE f.title LIKE %s GROUP BY f.film_id ORDER BY f.title\<close>: the groups of the
  statement before LIMIT and OFFSET. Rows whose titles compare equal stay in the order
  the grouping produced them; the statement itself leaves their order open, and the
  executions with any other order follow further down.
\<close>

definition keyword_groups :: "catalog \<Rightarrow> string \<Rightarrow> film_group list" where
  "keyword_groups db pat =
     sort_key (\<lambda>g. collation_key (title (group_film g)))
       (group_by_film_id (filter (\<lambda>r. like_match pat (title (j_film r))) (film_join db)))"

text \<open>
  \<^verbatim>\<open>LIMIT %s OFFSET %s\<close> with the integers the caller passes: a negative one is a
  syntax error, which the server rejects.
\<close>

definition limit_offset :: "int \<Rightarrow> int \<Rightarrow> 'a list \<Rightarrow> 'a list option" where
  "limit_offset limit offset xs =
     (if limit < 0 \<or> offset < 0 then None else Some (take (nat limit) (drop (nat offset) xs)))"

text \<open>The groups behind the page the statement selects, and the page itself.\<close>

definition SEARCH_BY_KEYWORD_groups ::
  "string \<Rightarrow> int \<Rightarrow> int \<Rightarrow> catalog \<Rightarrow> film_group list option" where
  "SEARCH_BY_KEYWORD_groups pat limit offset db = limit_offset limit offset (keyword_groups db pat)"

definition SEARCH_BY_KEYWORD ::
  "string \<Rightarrow> int \<Rightarrow> int \<Rightarrow> catalog \<Rightarrow> film_row list option" where
  "SEARCH_BY_KEYWORD pat limit offset db =
     map_option (map select_film_row) (SEARCH_BY_KEYWORD_groups pat limit offset db)"

text \<open>\<^verbatim>\<open>execute_query(q.SEARCH_BY_KEYWORD, ("%"+keyword+"%", limit, offset))\<close>.\<close>

definition search_by_keyword :: "server \<Rightarrow> string \<Rightarrow> int \<Rightarrow> int \<Rightarrow> film_row list" where
  "search_by_keyword srv keyword limit offset =
     execute_query_all srv (SEARCH_BY_KEYWORD (''%'' @ keyword @ ''%'') limit offset)"

text \<open>The films behind the records of a page, for statements about film identity.\<close>

definition keyword_page_films :: "server \<Rightarrow> string \<Rightarrow> int \<Rightarrow> int \<Rightarrow> film_group list" where
  "keyword_page_films srv keyword limit offset =
     execute_query_all srv (SEARCH_BY_KEYWORD_groups (''%'' @ keyword @ ''%'') limit offset)"

subsection \<open>SEARCH\_BY\_GENRE\_AND\_YEAR and search\_by\_genre\_and\_year\<close>

text \<open>\<^verbatim>\<open>f.release_year BETWEEN %s AND %s\<close>: never true of NULL.\<close>

definition between :: "int option \<Rightarrow> int \<Rightarrow> int \<Rightarrow> bool" where
  "between y lo hi = (case y of None \<Rightarrow> False | Some v \<Rightarrow> lo \<le> v \<and> v \<le> hi)"

text \<open>
  \<^verbatim>\<open>WHERE c.name = %s AND f.release_year BETWEEN %s AND %s GROUP BY f.film_id
  ORDER BY f.release_year, f.title\<close>: the order by year then title is the stable sort by
  title followed by the stable sort by year.
\<close>

definition genre_year_groups :: "catalog \<Rightarrow> string \<Rightarrow> int \<Rightarrow> int \<Rightarrow> film_group list" where
  "genre_year_groups db genre year_from year_to =
     sort_key (\<lambda>g. release_year (group_film g))
       (sort_key (\<lambda>g. collation_key (title (group_film g)))
          (group_by_film_id
             (filter (\<lambda>r. collation_key (name (j_category r)) = collation_key genre \<and>
                           between (release_year (j_film r)) year_from year_to)
                (film_join db))))"

definition SEARCH_BY_GENRE_AND_YEAR_groups ::
  "string \<Rightarrow> int \<Rightarrow> int \<Rightarrow> int \<Rightarrow> int \<Rightarrow> catalog \<Rightarrow> film_group list option" where
  "SEARCH_BY_GENRE_AND_YEAR_groups genre year_from year_to limit offset db =
     limit_offset limit offset (genre_year_groups db genre year_from year_to)"

definition SEARCH_BY_GENRE_AND_YEAR ::
  "string \<Rightarrow> int \<Rightarrow> int \<Rightarrow> int \<Rightarrow> int \<Rightarrow> catalog \<Rightarrow> film_row list option" where
  "SEARCH_BY_GENRE_AND_YEAR genre year_from year_to limit offset db =
     map_option (map select_film_row)
       (SEARCH_BY_GENRE_AND_YEAR_groups genre year_from year_to limit offset db)"

definition search_by_genre_and_year ::
  "server \<Rightarrow> string \<Rightarrow> int \<Rightarrow> int \<Rightarrow> int \<Rightarrow> int \<Rightarrow> film_row list" where
  "search_by_genre_and_year srv genre year_from year_to limit offset =
     execute_query_all srv (SEARCH_BY_GENRE_AND_YEAR genre year_from year_to limit offset)"

definition genre_year_page_films ::
  "server \<Rightarrow> string \<Rightarrow> int \<Rightarrow> int \<Rightarrow> int \<Rightarrow> int \<Rightarrow> film_group list" where
  "genre_year_page_films srv genre year_from year_to limit offset =
     execute_query_all srv (SEARCH_BY_GENRE_AND_YEAR_groups genre year_from year_to limit offset)"

subsection \<open>Notions the statements about the searches use\<close>

text \<open>
  A film has a category when one of its category links names a category that exists, and
  an actor when one of its actor links names an actor that exists.
\<close>

definition has_category :: "catalog \<Rightarrow> nat \<Rightarrow> bool" where
  "has_category db fid =
     list_ex (\<lambda>fc. fc_film_id fc = fid \<and>
                   list_ex (\<lambda>c. category_id c = fc_category_id fc) (categories db))
       (film_categories db)"

definition has_actor :: "catalog \<Rightarrow> nat \<Rightarrow> bool" where
  "has_actor db fid =
     list_ex (\<lambda>fa. fa_film_id fa = fid \<and>
                   list_ex (\<lambda>a. actor_id a = fa_actor_id fa) (actors db))
       (film_actors db)"

text \<open>
  The keyword is a prefix of the text, and the keyword occurs in the text, both up to the
  case of the letters.
\<close>

fun ci_prefix :: "string \<Rightarrow> string \<Rightarrow> bool" where
  "ci_prefix [] t = True"
| "ci_prefix (k # ks) [] = False"
| "ci_prefix (k # ks) (c # t) = (ci_eq k c \<and> ci_prefix ks t)"

fun ci_contains :: "string \<Rightarrow> string \<Rightarrow> bool" where
  "ci_contains k [] = ci_prefix k []"
| "ci_contains k (c # t) = (ci_prefix k (c # t) \<or> ci_contains k t)"

text \<open>A keyword without the characters LIKE reads as wildcards or as the escape.\<close>

definition wildcard_free :: "string \<Rightarrow> bool" where
  "wildcard_free k = list_all (\<lambda>c. c \<noteq> CHR ''%'' \<and> c \<noteq> CHR ''_'' \<and> c \<noteq> CHR 0x5C) k"

text \<open>
  The keyword search as the specification words it, for comparison with
  \<open>search_by_keyword\<close>: the films whose title contains the keyword as a
  case-insensitive substring, one per film identity, ordered by title, sliced to the
  window from \<open>offset\<close> of length \<open>limit\<close>.
\<close>

fun dedup_films :: "film list \<Rightarrow> film list" where
  "dedup_films [] = []"
| "dedup_films (f # fs) = f # dedup_films (filter (\<lambda>g. film_id g \<noteq> film_id f) fs)"

definition spec_search_by_keyword :: "catalog \<Rightarrow> string \<Rightarrow> nat \<Rightarrow> nat \<Rightarrow> film list" where
  "spec_search_by_keyword db k limit offset =
     take limit (drop offset
       (sort_key (\<lambda>f. collation_key (title f))
          (dedup_films (filter (\<lambda>f. ci_contains k (title f)) (films db)))))"

subsection \<open>Rows with equal titles\<close>

text \<open>
  \<^verbatim>\<open>ORDER BY f.title\<close> says nothing about rows whose titles compare equal: the server
  may deliver them in any order, and anew in every execution of the statement, so also
  for every page. An execution is modelled with the order \<open>plan\<close> in which it hands
  the groups of the statement to the sort; \<open>keyword_groups\<close> and
  \<open>search_by_keyword\<close> above are the executions that hand them over in the order of
  the grouping.
\<close>

definition keyword_matches :: "catalog \<Rightarrow> string \<Rightarrow> film_group list" where
  "keyword_matches db pat =
     group_by_film_id (filter (\<lambda>r. like_match pat (title (j_film r))) (film_join db))"

definition title_key :: "film_group \<Rightarrow> nat list" where
  "title_key g = collation_key (title (group_film g))"

definition keyword_groups_by ::
  "(film_group list \<Rightarrow> film_group list) \<Rightarrow> catalog \<Rightarrow> string \<Rightarrow> film_group list" where
  "keyword_groups_by plan db pat = sort_key title_key (plan (keyword_matches db pat))"

definition keyword_page_films_by ::
  "(film_group list \<Rightarrow> film_group list) \<Rightarrow> server \<Rightarrow> string \<Rightarrow> int \<Rightarrow> int \<Rightarrow>
     film_group list" where
  "keyword_page_films_by plan srv keyword limit offset =
     execute_query_all srv
       (\<lambda>db. limit_offset limit offset (keyword_groups_by plan db (''%'' @ keyword @ ''%'')))"

definition search_by_keyword_by ::
  "(film_group list \<Rightarrow> film_group list) \<Rightarrow> server \<Rightarrow> string \<Rightarrow> int \<Rightarrow> int \<Rightarrow>
     film_row list" where
  "search_by_keyword_by plan srv keyword limit offset =
     execute_query_all srv
       (\<lambda>db. map_option (map select_film_row)
          (limit_offset limit offset (keyword_groups_by plan db (''%'' @ keyword @ ''%''))))"

subsection \<open>Concrete catalogs\<close>

text \<open>
  Two films of one category, the first with two actors and the second with one; and the
  same catalog with no actor link at all.
\<close>

definition two_films :: catalog where
  "two_films =
     \<lparr>films =
        [\<lparr>film_id = 1, title = ''Inception'', release_year = Some 2010, rating = ''PG-13''\<rparr>,
         \<lparr>film_id = 2, title = ''The Departed'', release_year = Some 2006, rating = ''R''\<rparr>],
      film_categories =
        [\<lparr>fc_film_id = 1, fc_category_id = 7\<rparr>, \<lparr>fc_film_id = 2, fc_category_id = 7\<rparr>],
      categories = [\<lparr>category_id = 7, name = ''Drama''\<rparr>],
      film_actors =
        [\<lparr>fa_actor_id = 5, fa_film_id = 1\<rparr>, \<lparr>fa_actor_id = 5, fa_film_id = 2\<rparr>,
         \<lparr>fa_actor_id = 6, fa_film_id = 1\<rparr>],
      actors =
        [\<lparr>actor_id = 5, first_name = ''Leonardo'', last_name = ''DiCaprio''\<rparr>,
         \<lparr>actor_id = 6, first_name = ''Elliot'', last_name = ''Page''\<rparr>]\<rparr>"

definition uncredited :: catalog where
  "uncredited = two_films\<lparr>film_actors := []\<rparr>"

text \<open>Two films of the same title, each with the category and an actor.\<close>

definition twins :: catalog where
  "twins =
     \<lparr>films =
        [\<lparr>film_id = 1, title = ''Twin'', release_year = Some 2001, rating = ''G''\<rparr>,
         \<lparr>film_id = 2, title = ''Twin'', release_year = Some 2002, rating = ''G''\<rparr>],
      film_categories =
        [\<lparr>fc_film_id = 1, fc_category_id = 7\<rparr>, \<lparr>fc_film_id = 2, fc_category_id = 7\<rparr>],
      categories = [\<lparr>category_id = 7, name = ''Drama''\<rparr>],
      film_actors = [\<lparr>fa_actor_id = 5, fa_film_id = 1\<rparr>, \<lparr>fa_actor_id = 5, fa_film_id = 2\<rparr>],
      actors = [\<lparr>actor_id = 5, first_name = ''Leonardo'', last_name = ''DiCaprio''\<rparr>]\<rparr>"

subsection \<open>Connections of the catalog client\<close>

text \<open>
  \<^verbatim>\<open>get_db_connection\<close> and the connection handling of \<^verbatim>\<open>execute_query\<close>
  (\<^verbatim>\<open>conn = get_db_connection()\<close> first, \<^verbatim>\<open>conn.close()\<close> in the \<^verbatim>\<open>finally\<close>).
  A connection is identified by the number of connections made before it.
\<close>

record mysql_client =
  connections_made :: nat
  open_connections :: "nat list"

definition mysql_start :: mysql_client where
  "mysql_start = \<lparr>connections_made = 0, open_connections = []\<rparr>"

definition get_db_connection :: "server \<Rightarrow> mysql_client \<Rightarrow> nat option \<times> mysql_client" where
  "get_db_connection srv c =
     (case srv of
        Unreachable \<Rightarrow> (None, c)
      | Failing \<Rightarrow>
          (Some (connections_made c),
           c\<lparr>connections_made := Suc (connections_made c),
             open_connections := connections_made c # open_connections c\<rparr>)
      | Serving db \<Rightarrow>
          (Some (connections_made c),
           c\<lparr>connections_made := Suc (connections_made c),
             open_connections := connections_made c # open_connections c\<rparr>))"

text \<open>
  The connection one call of \<^verbatim>\<open>execute_query\<close> works on, and the client after the
  call; the rows the call returns are \<open>execute_query_all\<close> and
  \<open>execute_query_one\<close>.
\<close>

definition execute_query_connection :: "server \<Rightarrow> mysql_client \<Rightarrow> nat option \<times> mysql_client" where
  "execute_query_connection srv c =
     (case get_db_connection srv c of
        (None, c') \<Rightarrow> (None, c')
      | (Some conn, c') \<Rightarrow>
          (Some conn, c'\<lparr>open_connections := removeAll conn (open_connections c')\<rparr>))"

section \<open>The analytics store (log\_writer.py, log\_stats.py)\<close>

subsection \<open>Search events and the server\<close>

text \<open>
  The document \<^verbatim>\<open>log_search\<close> inserts. The timestamp is the client's
  \<^verbatim>\<open>datetime.utcnow()\<close>, stored in milliseconds.
\<close>

record search_event =
  ev_timestamp :: nat
  ev_search_type :: string
  ev_params :: pydict
  ev_results_count :: int

text \<open>
  The MongoDB server: out of reach (every operation raises a \<^verbatim>\<open>PyMongoError\<close>), or up
  with the documents of the collection in the order they were inserted.
\<close>

datatype mongo_server = MongoDown | MongoUp "search_event list"

definition stored_events :: "mongo_server \<Rightarrow> search_event list" where
  "stored_events srv = (case srv of MongoDown \<Rightarrow> [] | MongoUp docs \<Rightarrow> docs)"

subsection \<open>The cached handle: \_get\_mongo\_collection\<close>

text \<open>
  The module globals \<^verbatim>\<open>_mongo_client\<close> and \<^verbatim>\<open>_mongo_collection\<close>; log\_writer.py and
  log\_stats.py each have their own pair and the same function but for the URL. A client
  object is identified by the number of clients the module constructed before it, which
  \<open>clients_made\<close> counts.
\<close>

record mongo_module =
  mongo_client :: "nat option"
  mongo_collection :: "nat option"
  clients_made :: nat

definition module_start :: mongo_module where
  "module_start = \<lparr>mongo_client = None, mongo_collection = None, clients_made = 0\<rparr>"

text \<open>
  A cached collection is returned as it is. Otherwise a client is constructed and stored,
  \<^verbatim>\<open>server_info()\<close> tests the connection, and only when it succeeds is the collection
  stored and returned; a \<^verbatim>\<open>PyMongoError\<close> gives \<^verbatim>\<open>None\<close> and leaves the collection
  unset.
\<close>

definition get_mongo_collection :: "mongo_server \<Rightarrow> mongo_module \<Rightarrow> nat option \<times> mongo_module" where
  "get_mongo_collection srv m =
     (case mongo_collection m of
        Some h \<Rightarrow> (Some h, m)
      | None \<Rightarrow>
          (let c = clients_made m;
               m1 = m\<lparr>mongo_client := Some c, clients_made := Suc c\<rparr>
           in case srv of
                MongoDown \<Rightarrow> (None, m1)
              | MongoUp docs \<Rightarrow> (Some c, m1\<lparr>mongo_collection := Some c\<rparr>)))"

text \<open>
  \<^verbatim>\<open>close_connection\<close> of log\_writer.py: closes the client, if there is one, and resets
  both globals.
\<close>

definition close_connection :: "mongo_module \<Rightarrow> mongo_module" where
  "close_connection m =
     (case mongo_client m of
        None \<Rightarrow> m
      | Some c \<Rightarrow> m\<lparr>mongo_client := None, mongo_collection := None\<rparr>)"

subsection \<open>log\_search\<close>

text \<open>
  \<^verbatim>\<open>log_search(search_type, params, results_count)\<close> at the clock reading \<open>now\<close>: no
  collection gives \<^verbatim>\<open>False\<close>; otherwise the document is inserted and the insert is
  acknowledged, or the insert raises a \<^verbatim>\<open>PyMongoError\<close> and the value is \<^verbatim>\<open>False\<close>.
\<close>

definition log_search ::
  "nat \<Rightarrow> string \<Rightarrow> pydict \<Rightarrow> int \<Rightarrow> mongo_server \<times> mongo_module \<Rightarrow>
     bool \<times> mongo_server \<times> mongo_module" where
  "log_search now search_type params results_count st =
     (case get_mongo_collection (fst st) (snd st) of
        (None, m) \<Rightarrow> (False, fst st, m)
      | (Some h, m) \<Rightarrow>
          (case fst st of
             MongoDown \<Rightarrow> (False, MongoDown, m)
           | MongoUp docs \<Rightarrow>
               (True,
                MongoUp (docs @ [\<lparr>ev_timestamp = now, ev_search_type = search_type,
                                   ev_params = params, ev_results_count = results_count\<rparr>]),
                m)))"

subsection \<open>get\_popular\_queries\<close>

text \<open>
  The \<^verbatim>\<open>_id\<close> of the \<^verbatim>\<open>$group\<close> stage: the values of \<^verbatim>\<open>params.keyword\<close>,
  \<^verbatim>\<open>params.genre\<close> and \<^verbatim>\<open>params.year_range\<close>, each absent when the event has no
  such parameter.
\<close>

type_synonym group_key = "pyval option \<times> pyval option \<times> pyval option"

definition event_key :: "search_event \<Rightarrow> group_key" where
  "event_key e =
     (dict_get (ev_params e) ''keyword'',
      dict_get (ev_params e) ''genre'',
      dict_get (ev_params e) ''year_range'')"

text \<open>\<^verbatim>\<open>{"$group": {"_id": ..., "count": {"$sum": 1}}}\<close>: one pair per key, with the
  number of documents that have the key.\<close>

fun group_count :: "'k list \<Rightarrow> ('k \<times> nat) list" where
  "group_count [] = []"
| "group_count (k # ks) =
     (k, Suc (length (filter (\<lambda>x. x = k) ks))) # group_count (filter (\<lambda>x. x \<noteq> k) ks)"

text \<open>
  \<^verbatim>\<open>{"$sort": {field: -1}}\<close> and \<^verbatim>\<open>.sort(field, -1)\<close>: descending by the field; the
  documents that agree on it stay in the order they had.
\<close>

definition sort_descending :: "('a \<Rightarrow> nat) \<Rightarrow> 'a list \<Rightarrow> 'a list" where
  "sort_descending f xs = sort_key (\<lambda>x. - int (f x)) xs"

text \<open>
  The \<^verbatim>\<open>$group\<close> and \<^verbatim>\<open>$sort\<close> stages, and the whole pipeline: \<^verbatim>\<open>$limit\<close> takes a
  positive number, and the server rejects the pipeline otherwise.
\<close>

definition popular_groups :: "search_event list \<Rightarrow> (group_key \<times> nat) list" where
  "popular_groups docs = sort_descending snd (group_count (map event_key docs))"

definition popular_pipeline :: "int \<Rightarrow> search_event list \<Rightarrow> (group_key \<times> nat) list option" where
  "popular_pipeline limit docs =
     (if limit \<le> 0 then None else Some (take (nat limit) (popular_groups docs)))"

text \<open>
  The driver sends the pipeline as a BSON document, in which an integer has 64 bits: a
  limit outside that range makes \<^verbatim>\<open>aggregate\<close> raise an \<^verbatim>\<open>OverflowError\<close>, which is
  no \<^verbatim>\<open>PyMongoError\<close> and leaves \<^verbatim>\<open>get_popular_queries\<close> uncaught.
\<close>

datatype driver_error = OverflowError

definition int64 :: "int \<Rightarrow> bool" where
  "int64 i = (- (2 ^ 63) \<le> i \<and> i < 2 ^ 63)"

text \<open>
  \<^verbatim>\<open>get_popular_queries(limit)\<close>: no collection gives \<^verbatim>\<open>[]\<close>, and so does a
  \<^verbatim>\<open>PyMongoError\<close> of \<^verbatim>\<open>aggregate\<close> (the server out of reach, or the pipeline
  rejected).
\<close>

definition get_popular_queries ::
  "int \<Rightarrow> mongo_server \<times> mongo_module \<Rightarrow>
     driver_error + (group_key \<times> nat) list \<times> mongo_module" where
  "get_popular_queries limit st =
     (case get_mongo_collection (fst st) (snd st) of
        (None, m) \<Rightarrow> Inr ([], m)
      | (Some h, m) \<Rightarrow>
          (case fst st of
             MongoDown \<Rightarrow> Inr ([], m)
           | MongoUp docs \<Rightarrow>
               (if \<not> int64 limit then Inl OverflowError
                else case popular_pipeline limit docs of
                       None \<Rightarrow> Inr ([], m)
                     | Some rows \<Rightarrow> Inr (rows, m))))"

subsection \<open>get\_recent\_queries\<close>

text \<open>
  \<^verbatim>\<open>cursor.limit(n)\<close> of the driver: a limit of 0 is no limit, and a negative limit
  is the limit of its absolute value.
\<close>

definition cursor_limit :: "int \<Rightarrow> 'a list \<Rightarrow> 'a list" where
  "cursor_limit n xs = (if n = 0 then xs else take (nat \<bar>n\<bar>) xs)"

text \<open>
  \<^verbatim>\<open>list(collection.find().sort("timestamp", -1).limit(limit))\<close>, for a limit within
  the 64 bits the driver can send.
\<close>

definition get_recent_queries ::
  "int \<Rightarrow> mongo_server \<times> mongo_module \<Rightarrow> search_event list \<times> mongo_module" where
  "get_recent_queries limit st =
     (case get_mongo_collection (fst st) (snd st) of
        (None, m) \<Rightarrow> ([], m)
      | (Some h, m) \<Rightarrow>
          (case fst st of
             MongoDown \<Rightarrow> ([], m)
           | MongoUp docs \<Rightarrow> (cursor_limit limit (sort_descending ev_timestamp docs), m)))"

subsection \<open>A concrete log\<close>

text \<open>Two keyword searches for the same keyword and one search by genre and year.\<close>

definition demo_log :: "search_event list" where
  "demo_log =
     [\<lparr>ev_timestamp = 100, ev_search_type = ''keyword'',
       ev_params = [(''keyword'', PStr ''ince''), (''page'', PInt 2)], ev_results_count = 1\<rparr>,
      \<lparr>ev_timestamp = 200, ev_search_type = ''genre_year'',
       ev_params = [(''genre'', PStr ''Drama''), (''year_range'', PStr ''2006'')],
       ev_results_count = 1\<rparr>,
      \<lparr>ev_timestamp = 300, ev_search_type = ''keyword'',
       ev_params = [(''keyword'', PStr ''ince''), (''page'', PInt 3)], ev_results_count = 0\<rparr>]"

text \<open>
  A longer log: three keyword searches for one keyword, two searches for one genre and
  year, and one search for the same genre over a range of years.
\<close>

definition busy_log :: "search_event list" where
  "busy_log =
     [\<lparr>ev_timestamp = 100, ev_search_type = ''keyword'',
       ev_params = [(''keyword'', PStr ''ince''), (''page'', PInt 2)], ev_results_count = 1\<rparr>,
      \<lparr>ev_timestamp = 200, ev_search_type = ''genre_year'',
       ev_params = [(''genre'', PStr ''Drama''), (''year_range'', PStr ''2006'')],
       ev_results_count = 1\<rparr>,
      \<lparr>ev_timestamp = 300, ev_search_type = ''genre_year'',
       ev_params = [(''genre'', PStr ''Drama''), (''year_range'', PStr ''2000-2010'')],
       ev_results_count = 2\<rparr>,
      \<lparr>ev_timestamp = 400, ev_search_type = ''keyword'',
       ev_params = [(''keyword'', PStr ''ince''), (''page'', PInt 3)], ev_results_count = 0\<rparr>,
      \<lparr>ev_timestamp = 500, ev_search_type = ''genre_year'',
       ev_params = [(''genre'', PStr ''Drama''), (''year_range'', PStr ''2006'')],
       ev_results_count = 1\<rparr>,
      \<lparr>ev_timestamp = 600, ev_search_type = ''keyword'',
       ev_params = [(''keyword'', PStr ''ince''), (''page'', PInt 2)], ev_results_count = 1\<rparr>]"

section \<open>The result presenter (formatter.py)\<close>

subsection \<open>Rows, errors and Python helpers\<close>

text \<open>
  What \<^verbatim>\<open>format_results\<close> finds in its list: a dict, a tuple, or a value of any other
  type.
\<close>

datatype result_row = Dict pydict | Tuple "pyval list" | Other

text \<open>
  The exceptions that leave \<^verbatim>\<open>format_results\<close>: its own
  \<^verbatim>\<open>ValueError("Unsupported data format")\<close>; the error of the table's \<^verbatim>\<open>add_row\<close>
  for a row that has not as many values as the table has columns; and the
  \<^verbatim>\<open>TypeError\<close> of \<^verbatim>\<open>len\<close> applied to an integer.
\<close>

datatype py_error = UnsupportedDataFormat | RowWidth nat | LenOfInt

text \<open>\<^verbatim>\<open>str(n)\<close> of an integer.\<close>

fun digits :: "nat \<Rightarrow> string" where
  "digits n =
     (if n < 10 then [''0123456789'' ! n]
      else digits (n div 10) @ [''0123456789'' ! (n mod 10)])"

definition str_int :: "int \<Rightarrow> string" where
  "str_int i = (if i < 0 then CHR ''-'' # digits (nat (- i)) else digits (nat i))"

definition py_str :: "pyval \<Rightarrow> string" where
  "py_str v = (case v of PStr s \<Rightarrow> s | PInt i \<Rightarrow> str_int i | PNone \<Rightarrow> ''None'')"

text \<open>\<^verbatim>\<open>s.strip()\<close> and \<^verbatim>\<open>s.upper()\<close> on ASCII.\<close>

definition is_space :: "char \<Rightarrow> bool" where
  "is_space c = (of_char c \<in> {9, 10, 11, 12, 13, 28, 29, 30, 31, 32 :: nat})"

definition strip :: "string \<Rightarrow> string" where
  "strip s = rev (dropWhile is_space (rev (dropWhile is_space s)))"

definition upper_char :: "char \<Rightarrow> char" where
  "upper_char c =
     (case map_of (zip ''abcdefghijklmnopqrstuvwxyz'' ''ABCDEFGHIJKLMNOPQRSTUVWXYZ'') c of
        None \<Rightarrow> c
      | Some u \<Rightarrow> u)"

definition upper :: "string \<Rightarrow> string" where
  "upper s = map upper_char s"

text \<open>\<^verbatim>\<open>results[:max_rows]\<close>: a negative bound counts from the end.\<close>

definition slice_to :: "int \<Rightarrow> 'a list \<Rightarrow> 'a list" where
  "slice_to n xs = (if 0 \<le> n then take (nat n) xs else take (length xs - nat (- n)) xs)"

text \<open>\<^verbatim>\<open>d.get(key, "")\<close>.\<close>

definition get_or_empty :: "pydict \<Rightarrow> string \<Rightarrow> pyval" where
  "get_or_empty d k = (case dict_get d k of None \<Rightarrow> PStr [] | Some v \<Rightarrow> v)"

subsection \<open>truncate\_text and color\_rating\<close>

text \<open>
  \<^verbatim>\<open>if not text: return ""\<close>, then
  \<^verbatim>\<open>text[:max_len] + "..." if len(text) > max_len else text\<close>: a falsy value
  (\<^verbatim>\<open>None\<close>, the empty string, 0) gives the empty string, and \<^verbatim>\<open>len\<close> of another
  integer raises.
\<close>

definition truncate_text :: "pyval \<Rightarrow> nat \<Rightarrow> py_error + string" where
  "truncate_text text max_len =
     (case text of
        PNone \<Rightarrow> Inr []
      | PStr s \<Rightarrow>
          (if s = [] then Inr []
           else if length s > max_len then Inr (take max_len s @ ''...'') else Inr s)
      | PInt n \<Rightarrow> (if n = 0 then Inr [] else Inl LenOfInt))"

text \<open>The escape sequences of the three colours and of the reset.\<close>

definition LIGHTGREEN_EX :: string where "LIGHTGREEN_EX = CHR 0x1B # ''[92m''"
definition LIGHTYELLOW_EX :: string where "LIGHTYELLOW_EX = CHR 0x1B # ''[93m''"
definition LIGHTRED_EX :: string where "LIGHTRED_EX = CHR 0x1B # ''[91m''"
definition RESET_ALL :: string where "RESET_ALL = CHR 0x1B # ''[0m''"

definition color_rating :: "pyval \<Rightarrow> string" where
  "color_rating v =
     (let rating_str = upper (strip (py_str v)) in
      if rating_str = ''G'' then LIGHTGREEN_EX @ rating_str @ RESET_ALL
      else if rating_str \<in> set [''PG'', ''PG-13'', ''R''] then LIGHTYELLOW_EX @ rating_str @ RESET_ALL
      else if rating_str = ''NC-17'' then LIGHTRED_EX @ rating_str @ RESET_ALL
      else rating_str)"

subsection \<open>format\_results\<close>

text \<open>\<^verbatim>\<open>table.add_row(row)\<close> of a table with the five column headers.\<close>

definition add_row :: "pyval list \<Rightarrow> py_error + pyval list" where
  "add_row row = (if length row \<noteq> 5 then Inl (RowWidth (length row)) else Inr row)"

text \<open>The body of the loop over the rows: the cells of one table row, or the exception.\<close>

definition render_row :: "result_row \<Rightarrow> py_error + pyval list" where
  "render_row movie =
     (case movie of
        Dict d \<Rightarrow>
          (case truncate_text (get_or_empty d ''actors'') 85 of
             Inl e \<Rightarrow> Inl e
           | Inr a \<Rightarrow>
               add_row [get_or_empty d ''title'', get_or_empty d ''year'',
                        PStr (color_rating (get_or_empty d ''rating'')),
                        get_or_empty d ''genre'', PStr a])
      | Tuple vs \<Rightarrow>
          (let row = take 5 vs;
               row = (if length row > 2 then row[2 := PStr (color_rating (row ! 2))] else row)
           in if length row > 4 then
                (case truncate_text (row ! 4) 85 of
                   Inl e \<Rightarrow> Inl e
                 | Inr a \<Rightarrow> add_row (row[4 := PStr a]))
              else add_row row)
      | Other \<Rightarrow> Inl UnsupportedDataFormat)"

fun render_rows :: "result_row list \<Rightarrow> py_error + pyval list list" where
  "render_rows [] = Inr []"
| "render_rows (movie # movies) =
     (case render_row movie of
        Inl e \<Rightarrow> Inl e
      | Inr row \<Rightarrow>
          (case render_rows movies of Inl e \<Rightarrow> Inl e | Inr rows \<Rightarrow> Inr (row # rows)))"

text \<open>
  What \<^verbatim>\<open>format_results\<close> prints: the line \<^verbatim>\<open>No results found.\<close>, or the table of
  the rendered rows (the drawing and colouring of the table's borders and headers is left
  to the table library and not modelled). Nothing is printed before the loop is through.
\<close>

datatype printed = NoResultsFound | Table "pyval list list"

definition format_results :: "result_row list \<Rightarrow> int \<Rightarrow> py_error + printed" where
  "format_results results max_rows =
     (if results = [] then Inr NoResultsFound
      else case render_rows (slice_to max_rows results) of
             Inl e \<Rightarrow> Inl e
           | Inr rows \<Rightarrow> Inr (Table rows))"

text \<open>
  A row of supported shape is a well-formed film record when its actors value is text
  (or \<^verbatim>\<open>None\<close>, or absent from a dict), and a tuple has at least the five fields.
\<close>

definition text_or_empty :: "pyval \<Rightarrow> bool" where
  "text_or_empty v = (case v of PStr s \<Rightarrow> True | PNone \<Rightarrow> True | PInt n \<Rightarrow> n = 0)"

definition well_formed :: "result_row \<Rightarrow> bool" where
  "well_formed movie =
     (case movie of
        Dict d \<Rightarrow> text_or_empty (get_or_empty d ''actors'')
      | Tuple vs \<Rightarrow> 5 \<le> length vs \<and> text_or_empty (vs ! 4)
      | Other \<Rightarrow> False)"

section \<open>The application loop (main.py)\<close>

text \<open>The dict the cursor returns for a row of a search.\<close>

definition film_row_dict :: "film_row \<Rightarrow> pydict" where
  "film_row_dict r =
     [(''title'', PStr (fr_title r)),
      (''year'', case fr_year r of None \<Rightarrow> PNone | Some y \<Rightarrow> PInt y),
      (''rating'', PStr (fr_rating r)),
      (''genre'', PStr (fr_genre r)),
      (''actors'', PStr (fr_actors r))]"

text \<open>
  One pass through the body of a pagination loop, up to the navigation prompt: the offset
  passed to the search, the page it returned, what was printed, and whether the event
  was logged.
\<close>

record page_view =
  pv_offset :: int
  pv_results :: "film_row list"
  pv_printed :: printed
  pv_logged :: bool

text \<open>
  \<^verbatim>\<open>results = search_by_keyword(keyword, limit=10, offset=(page - 1) * 10)\<close>,
  \<^verbatim>\<open>format_results(results)\<close>,
  \<^verbatim>\<open>log_search("keyword", {"keyword": keyword, "page": page +1}, len(results))\<close>,
  at the clock reading \<open>now\<close>. An exception of the presenter would leave the loop.
\<close>

definition keyword_page ::
  "server \<Rightarrow> nat \<Rightarrow> string \<Rightarrow> int \<Rightarrow> mongo_server \<times> mongo_module \<Rightarrow>
     py_error + page_view \<times> mongo_server \<times> mongo_module" where
  "keyword_page cat now keyword page an =
     (let offset = (page - 1) * 10;
          results = search_by_keyword cat keyword 10 offset
      in case format_results (map (\<lambda>r. Dict (film_row_dict r)) results) 10 of
           Inl e \<Rightarrow> Inl e
         | Inr out \<Rightarrow>
             (case log_search now ''keyword''
                     [(''keyword'', PStr keyword), (''page'', PInt (page + 1))]
                     (int (length results)) an of
                (ok, an') \<Rightarrow>
                  Inr (\<lparr>pv_offset = offset, pv_results = results, pv_printed = out,
                        pv_logged = ok\<rparr>, an')))"

text \<open>
  The same for the search by genre and years;
  \<^verbatim>\<open>year_param = str(year_from) if year_choice == "1" else f"{year_from}-{year_to}"\<close>.
\<close>

definition year_param :: "string \<Rightarrow> int \<Rightarrow> int \<Rightarrow> string" where
  "year_param year_choice year_from year_to =
     (if year_choice = ''1'' then str_int year_from
      else str_int year_from @ ''-'' @ str_int year_to)"

definition genre_year_page ::
  "server \<Rightarrow> nat \<Rightarrow> string \<Rightarrow> int \<Rightarrow> int \<Rightarrow> string \<Rightarrow> int \<Rightarrow> mongo_server \<times> mongo_module \<Rightarrow>
     py_error + page_view \<times> mongo_server \<times> mongo_module" where
  "genre_year_page cat now genre year_from year_to year_choice page an =
     (let offset = (page - 1) * 10;
          results = search_by_genre_and_year cat genre year_from year_to 10 offset
      in case format_results (map (\<lambda>r. Dict (film_row_dict r)) results) 10 of
           Inl e \<Rightarrow> Inl e
         | Inr out \<Rightarrow>
             (case log_search now ''genre_year''
                     [(''genre'', PStr genre),
                      (''year_range'', PStr (year_param year_choice year_from year_to))]
                     (int (length results)) an of
                (ok, an') \<Rightarrow>
                  Inr (\<lparr>pv_offset = offset, pv_results = results, pv_printed = out,
                        pv_logged = ok\<rparr>, an')))"

text \<open>
  The navigation prompt: \<^verbatim>\<open>3\<close> leaves the loop, \<^verbatim>\<open>1\<close> goes back a page unless the
  page is the first, \<^verbatim>\<open>2\<close> goes on a page, and anything else stays.
\<close>

definition navigate :: "string \<Rightarrow> int \<Rightarrow> int option" where
  "navigate nav page =
     (if nav = ''3'' then None
      else if nav = ''1'' then (if page > 1 then Some (page - 1) else Some page)
      else if nav = ''2'' then Some (page + 1)
      else Some page)"

text \<open>
  The pagination loops, run on the list of what the environment supplies to each pass:
  the clock reading at the time of logging and the user's answer to the prompt. The loop
  ends at the answer \<^verbatim>\<open>3\<close>, at an exception, or when the input is exhausted. The value
  is the views in order and the analytics store afterwards. \<^verbatim>\<open>main\<close> starts both
  loops at page 1.
\<close>

fun keyword_loop ::
  "server \<Rightarrow> string \<Rightarrow> int \<Rightarrow> (nat \<times> string) list \<Rightarrow> mongo_server \<times> mongo_module \<Rightarrow>
     py_error + page_view list \<times> mongo_server \<times> mongo_module" where
  "keyword_loop cat keyword page [] an = Inr ([], an)"
| "keyword_loop cat keyword page ((now, nav) # inputs) an =
     (case keyword_page cat now keyword page an of
        Inl e \<Rightarrow> Inl e
      | Inr (pv, an') \<Rightarrow>
          (case navigate nav page of
             None \<Rightarrow> Inr ([pv], an')
           | Some page' \<Rightarrow>
               (case keyword_loop cat keyword page' inputs an' of
                  Inl e \<Rightarrow> Inl e
                | Inr (pvs, an'') \<Rightarrow> Inr (pv # pvs, an''))))"

fun genre_year_loop ::
  "server \<Rightarrow> string \<Rightarrow> int \<Rightarrow> int \<Rightarrow> string \<Rightarrow> int \<Rightarrow> (nat \<times> string) list \<Rightarrow>
     mongo_server \<times> mongo_module \<Rightarrow> py_error + page_view list \<times> mongo_server \<times> mongo_module" where
  "genre_year_loop cat genre year_from year_to year_choice page [] an = Inr ([], an)"
| "genre_year_loop cat genre year_from year_to year_choice page ((now, nav) # inputs) an =
     (case genre_year_page cat now genre year_from year_to year_choice page an of
        Inl e \<Rightarrow> Inl e
      | Inr (pv, an') \<Rightarrow>
          (case navigate nav page of
             None \<Rightarrow> Inr ([pv], an')
           | Some page' \<Rightarrow>
               (case genre_year_loop cat genre year_from year_to year_choice page' inputs an' of
                  Inl e \<Rightarrow> Inl e
                | Inr (pvs, an'') \<Rightarrow> Inr (pv # pvs, an''))))"

text \<open>
  The pages a pagination loop passes through, from the page it starts at and the answers
  to the prompt: one page per pass, the next one as \<open>navigate\<close> gives it.
\<close>

fun visited_pages :: "int \<Rightarrow> (nat \<times> string) list \<Rightarrow> int list" where
  "visited_pages page [] = []"
| "visited_pages page ((now, nav) # inputs) =
     page # (case navigate nav page of None \<Rightarrow> [] | Some page' \<Rightarrow> visited_pages page' inputs)"

text \<open>The result counts that the views of a loop logged, in order.\<close>

definition logged_counts :: "page_view list \<Rightarrow> int list" where
  "logged_counts pvs = map (\<lambda>pv. int (length (pv_results pv))) (filter pv_logged pvs)"

section \<open>Properties of get\_year\_range\<close>

lemma fold_min_Min: "fold min xs (x::int) = Min (set (x # xs))"
proof (induction xs arbitrary: x)
  case Nil
  show ?case by simp
next
  case (Cons y ys)
  have "fold min (y # ys) x = Min (set (min y x # ys))"
    using Cons.IH [of "min y x"] by simp
  also have "\<dots> = Min (set (x # y # ys))"
    by (cases "ys = []") (auto simp: min.commute min.left_commute)
  finally show ?case .
qed

lemma fold_max_Max: "fold max xs (x::int) = Max (set (x # xs))"
proof (induction xs arbitrary: x)
  case Nil
  show ?case by simp
next
  case (Cons y ys)
  have "fold max (y # ys) x = Max (set (max y x # ys))"
    using Cons.IH [of "max y x"] by simp
  also have "\<dots> = Max (set (x # y # ys))"
    by (cases "ys = []") (auto simp: max.commute max.left_commute)
  finally show ?case .
qed

lemma sql_min_Some:
  "non_null vs \<noteq> [] \<Longrightarrow> sql_min vs = Some (Min (set (non_null vs)))"
  by (cases "non_null vs") (simp_all add: sql_min_def fold_min_Min)

lemma sql_max_Some:
  "non_null vs \<noteq> [] \<Longrightarrow> sql_max vs = Some (Max (set (non_null vs)))"
  by (cases "non_null vs") (simp_all add: sql_max_def fold_max_Max)

lemma get_year_range_unreachable:
  "get_year_range Unreachable = (Some 0, Some 0)"
  "get_year_range Failing = (Some 0, Some 0)"
  by (simp_all add: get_year_range_def execute_query_one_def)

lemma get_year_range_nonempty:
  "non_null (map release_year (films db)) \<noteq> [] \<Longrightarrow>
   get_year_range (Serving db) =
     (Some (Min (set (non_null (map release_year (films db))))),
      Some (Max (set (non_null (map release_year (films db))))))"
  by (simp add: get_year_range_def execute_query_one_def GET_YEAR_RANGE_def
      sql_min_Some sql_max_Some)

text \<open>
  C3. \<^verbatim>\<open>get_year_range()\<close> is said to return \<open>(0, 0)\<close> on an empty catalog. On a
  reachable catalog whose film table is empty the aggregate query still selects one row,
  with both columns NULL; the row is a non-empty dict, so the \<^verbatim>\<open>if result\<close> test
  passes and the function returns \<open>(None, None)\<close>, not \<open>(0, 0)\<close>.
\<close>

theorem get_year_range_empty_catalog:
  "get_year_range (Serving (db\<lparr>films := []\<rparr>)) = (None, None) \<and>
   get_year_range (Serving (db\<lparr>films := []\<rparr>)) \<noteq> (Some 0, Some 0)"
  by (simp add: get_year_range_def execute_query_one_def GET_YEAR_RANGE_def
      sql_min_def sql_max_def non_null_def)
section \<open>Properties of the catalog queries\<close>

subsection \<open>The join and the grouping\<close>

lemma film_join_film:
  "r \<in> set (film_join db) \<Longrightarrow>
     j_film r \<in> set (films db) \<and> has_category db (j_id r) \<and> has_actor db (j_id r)"
  by (auto simp: film_join_def has_category_def has_actor_def j_id_def list_ex_iff)

lemma film_join_complete:
  assumes "f \<in> set (films db)" "has_category db (film_id f)" "has_actor db (film_id f)"
  shows "\<exists>r \<in> set (film_join db). j_film r = f"
proof -
  from assms(2) obtain fc c where fc: "fc \<in> set (film_categories db)" "fc_film_id fc = film_id f"
    "c \<in> set (categories db)" "category_id c = fc_category_id fc"
    by (auto simp: has_category_def list_ex_iff)
  from assms(3) obtain fa a where fa: "fa \<in> set (film_actors db)" "fa_film_id fa = film_id f"
    "a \<in> set (actors db)" "actor_id a = fa_actor_id fa"
    by (auto simp: has_actor_def list_ex_iff)
  have "\<lparr>j_film = f, j_category = c, j_actor = a\<rparr> \<in> set (film_join db)"
    unfolding film_join_def using assms(1) fc fa by auto
  then show ?thesis by force
qed

lemma group_ids: "group_id ` set (group_by_film_id rs) = j_id ` set rs"
proof (induction rs rule: group_by_film_id.induct)
  case 1
  show ?case by simp
next
  case (2 r rs)
  then show ?case by (auto simp: group_id_def)
qed

lemma group_distinct: "distinct (map group_id (group_by_film_id rs))"
proof (induction rs rule: group_by_film_id.induct)
  case 1
  show ?case by simp
next
  case (2 r rs)
  have "group_id (r, filter (\<lambda>s. j_id s = j_id r) rs) \<notin>
        set (map group_id (group_by_film_id (filter (\<lambda>s. j_id s \<noteq> j_id r) rs)))"
    using group_ids [of "filter (\<lambda>s. j_id s \<noteq> j_id r) rs"] by (auto simp: group_id_def)
  with 2 show ?case by simp
qed

lemma group_first: "g \<in> set (group_by_film_id rs) \<Longrightarrow> fst g \<in> set rs"
proof (induction rs arbitrary: g rule: group_by_film_id.induct)
  case 1
  then show ?case by simp
next
  case (2 r rs)
  from "2.prems" consider "g = (r, filter (\<lambda>s. j_id s = j_id r) rs)"
    | "g \<in> set (group_by_film_id (filter (\<lambda>s. j_id s \<noteq> j_id r) rs))"
    by auto
  then show ?case
  proof cases
    case 1
    then show ?thesis by simp
  next
    case 2
    from "2.IH" [OF this] show ?thesis by simp
  qed
qed


lemma group_rest:
  "(r0, rest) \<in> set (group_by_film_id rs) \<Longrightarrow> s \<in> set rest \<Longrightarrow> s \<in> set rs \<and> j_id s = j_id r0"
proof (induction rs rule: group_by_film_id.induct)
  case 1
  then show ?case by simp
next
  case (2 r rs)
  from 2(2) consider "r0 = r" "rest = filter (\<lambda>s. j_id s = j_id r) rs"
    | "(r0, rest) \<in> set (group_by_film_id (filter (\<lambda>s. j_id s \<noteq> j_id r) rs))"
    by auto
  then show ?case
  proof cases
    case 1
    with 2(3) show ?thesis by simp
  next
    case 2
    from "2.IH" [OF this "2.prems"(2)] show ?thesis by simp
  qed
qed

lemma distinct_map_sort_key:
  "distinct (map f (sort_key k xs)) = distinct (map f xs)"
  by (simp add: distinct_map)

lemma keyword_groups_set:
  "group_id ` set (keyword_groups db pat) =
     j_id ` set (filter (\<lambda>r. like_match pat (title (j_film r))) (film_join db))"
  unfolding keyword_groups_def by (simp only: set_sort group_ids)

lemma keyword_groups_ids:
  "(fid \<in> group_id ` set (keyword_groups db pat)) =
     (\<exists>f. f \<in> set (films db) \<and> film_id f = fid \<and> like_match pat (title f) \<and>
          has_category db fid \<and> has_actor db fid)"
  (is "?L = ?R")
proof
  assume ?L
  then obtain r where r: "r \<in> set (film_join db)" "like_match pat (title (j_film r))" "j_id r = fid"
    unfolding keyword_groups_set by force
  have "j_film r \<in> set (films db)" "has_category db (j_id r)" "has_actor db (j_id r)"
    using film_join_film [OF r(1)] by simp_all
  moreover have "film_id (j_film r) = fid"
    using r(3) by (simp add: j_id_def)
  ultimately have "j_film r \<in> set (films db) \<and> film_id (j_film r) = fid \<and>
      like_match pat (title (j_film r)) \<and> has_category db fid \<and> has_actor db fid"
    using r(2,3) by simp
  then show ?R by (rule exI)
next
  assume ?R
  then obtain f where f: "f \<in> set (films db)" "like_match pat (title f)"
    "has_category db (film_id f)" "has_actor db (film_id f)" "film_id f = fid"
    by blast
  from film_join_complete [OF f(1,3,4)] obtain r where r: "r \<in> set (film_join db)" "j_film r = f"
    by blast
  have "r \<in> set (filter (\<lambda>r. like_match pat (title (j_film r))) (film_join db))"
    using r f(2) by simp
  moreover have "j_id r = fid"
    using r(2) f(5) by (simp add: j_id_def)
  ultimately show ?L
    unfolding keyword_groups_set by (rule image_eqI [rotated, OF _ sym])
qed

lemma keyword_groups_distinct: "distinct (map group_id (keyword_groups db pat))"
  unfolding keyword_groups_def
  by (simp only: distinct_map_sort_key group_distinct)

lemma keyword_groups_sorted:
  "sorted (map (\<lambda>g. collation_key (title (group_film g))) (keyword_groups db pat))"
  unfolding keyword_groups_def by simp

lemma keyword_groups_film:
  assumes "g \<in> set (keyword_groups db pat)"
  shows "group_film g \<in> set (films db) \<and> like_match pat (title (group_film g)) \<and>
         has_category db (group_id g) \<and> has_actor db (group_id g)"
proof -
  from assms have "g \<in> set (group_by_film_id (filter (\<lambda>r. like_match pat (title (j_film r))) (film_join db)))"
    by (simp add: keyword_groups_def)
  then have "fst g \<in> set (filter (\<lambda>r. like_match pat (title (j_film r))) (film_join db))"
    by (rule group_first)
  then have "fst g \<in> set (film_join db)" "like_match pat (title (j_film (fst g)))"
    by simp_all
  with film_join_film [of "fst g" db] show ?thesis
    by (simp add: group_film_def group_id_def)
qed

subsection \<open>LIKE on a keyword without wildcards, and paging\<close>

lemma like_percent: "like_match [CHR ''%''] t"
  by (induction t) simp_all

lemma like_prefix:
  "wildcard_free k \<Longrightarrow> like_match (k @ [CHR ''%'']) t = ci_prefix k t"
proof (induction k arbitrary: t)
  case Nil
  show ?case by (simp add: like_percent)
next
  case (Cons a ks)
  then have ks: "wildcard_free ks" and a: "a \<noteq> CHR ''%''" "a \<noteq> CHR ''_''" "a \<noteq> CHR 0x5C"
    by (simp_all add: wildcard_free_def)
  show ?case
  proof (cases t)
    case Nil
    with a show ?thesis by simp
  next
    case (Cons c s)
    with a Cons.IH [OF ks, of s] show ?thesis by simp
  qed
qed

lemma like_contains:
  "wildcard_free k \<Longrightarrow> like_match (CHR ''%'' # k @ [CHR ''%'']) t = ci_contains k t"
proof (induction t)
  case Nil
  then show ?case using like_prefix [of k "[]"] by simp
next
  case (Cons c s)
  then show ?case using like_prefix [of k "c # s"] by simp
qed

lemma ci_prefix_iff:
  "ci_prefix k t = (\<exists>mid post. t = mid @ post \<and> collation_key mid = collation_key k)"
proof (induction k t rule: ci_prefix.induct)
  case (1 t)
  show ?case by (simp add: collation_key_def)
next
  case (2 k ks)
  show ?case by (simp add: collation_key_def)
next
  case (3 k ks c t)
  show ?case
  proof
    assume "ci_prefix (k # ks) (c # t)"
    then have "ci_eq k c" and "ci_prefix ks t" by simp_all
    with 3 obtain mid post where "t = mid @ post" "collation_key mid = collation_key ks"
      by blast
    with \<open>ci_eq k c\<close> have "c # t = (c # mid) @ post \<and> collation_key (c # mid) = collation_key (k # ks)"
      by (simp add: collation_key_def ci_eq_def)
    then show "\<exists>mid post. c # t = mid @ post \<and> collation_key mid = collation_key (k # ks)"
      by blast
  next
    assume "\<exists>mid post. c # t = mid @ post \<and> collation_key mid = collation_key (k # ks)"
    then obtain mid post where mp: "c # t = mid @ post" "collation_key mid = collation_key (k # ks)"
      by blast
    from mp(2) obtain m ms where mid: "mid = m # ms"
      by (cases mid) (simp_all add: collation_key_def)
    with mp have "m = c" "t = ms @ post" "ci_eq k c" "collation_key ms = collation_key ks"
      by (simp_all add: collation_key_def ci_eq_def)
    with 3 show "ci_prefix (k # ks) (c # t)" by auto
  qed
qed

lemma ci_contains_iff:
  "ci_contains k t =
     (\<exists>pre mid post. t = pre @ mid @ post \<and> collation_key mid = collation_key k)"
proof (induction t)
  case Nil
  show ?case by (simp add: ci_prefix_iff)
next
  case (Cons c t)
  show ?case
  proof
    assume "ci_contains k (c # t)"
    then consider "ci_prefix k (c # t)" | "ci_contains k t" by auto
    then show "\<exists>pre mid post. c # t = pre @ mid @ post \<and> collation_key mid = collation_key k"
    proof cases
      case 1
      then obtain mid post where "c # t = [] @ mid @ post \<and> collation_key mid = collation_key k"
        unfolding ci_prefix_iff by auto
      then show ?thesis by blast
    next
      case 2
      with Cons obtain pre mid post where "t = pre @ mid @ post" "collation_key mid = collation_key k"
        by blast
      then have "c # t = (c # pre) @ mid @ post \<and> collation_key mid = collation_key k"
        by simp
      then show ?thesis by blast
    qed
  next
    assume "\<exists>pre mid post. c # t = pre @ mid @ post \<and> collation_key mid = collation_key k"
    then obtain pre mid post where pmp: "c # t = pre @ mid @ post" "collation_key mid = collation_key k"
      by blast
    show "ci_contains k (c # t)"
    proof (cases pre)
      case Nil
      with pmp have "ci_prefix k (c # t)"
        unfolding ci_prefix_iff by auto
      then show ?thesis by simp
    next
      case (Cons p ps)
      with pmp have "t = ps @ mid @ post" by simp
      with pmp(2) Cons.IH have "ci_contains k t" by blast
      then show ?thesis by simp
    qed
  qed
qed

lemma concat_pages:
  "concat (map (\<lambda>i. take L (drop (i * L) xs)) [0..<n]) = take (n * L) xs"
proof (induction n)
  case 0
  show ?case by simp
next
  case (Suc n)
  have "take (n * L) xs @ take L (drop (n * L) xs) = take (n * L + L) xs"
    by (simp add: take_add)
  with Suc show ?case by (simp add: add.commute)
qed

lemma pages_disjoint_less:
  assumes "distinct ys" "i < j"
  shows "set (take L (drop (i * L) ys)) \<inter> set (take L (drop (j * L) ys)) = {}"
proof -
  have le: "i * L + L \<le> j * L"
    using assms(2) by (metis Suc_leI mult_Suc mult_le_mono1 add.commute)
  have "take L (drop (i * L) ys) = drop (i * L) (take (i * L + L) ys)"
    by (simp add: drop_take add.commute)
  then have a: "set (take L (drop (i * L) ys)) \<subseteq> set (take (i * L + L) ys)"
    by (simp add: set_drop_subset)
  have b: "set (take L (drop (j * L) ys)) \<subseteq> set (drop (j * L) ys)"
    by (rule set_take_subset)
  have "set (take (i * L + L) ys) \<inter> set (drop (j * L) ys) = {}"
    using assms(1) le by (rule set_take_disj_set_drop_if_distinct)
  with a b show ?thesis by blast
qed

lemma pages_disjoint:
  assumes "distinct ys" "i \<noteq> j"
  shows "set (take L (drop (i * L) ys)) \<inter> set (take L (drop (j * L) ys)) = {}"
proof (cases "i < j")
  case True
  with assms(1) show ?thesis by (rule pages_disjoint_less)
next
  case False
  with assms(2) have "j < i" by simp
  with assms(1) have "set (take L (drop (j * L) ys)) \<inter> set (take L (drop (i * L) ys)) = {}"
    by (rule pages_disjoint_less)
  then show ?thesis by blast
qed

subsection \<open>search\_by\_keyword\<close>

lemmas eval_defs = two_films_def uncredited_def search_by_keyword_def execute_query_all_def
  SEARCH_BY_KEYWORD_def SEARCH_BY_KEYWORD_groups_def limit_offset_def keyword_groups_def
  film_join_def j_id_def group_film_def group_id_def collation_key_def fold_case_def ci_eq_def
  select_film_row_def spec_search_by_keyword_def keyword_page_films_def
  GROUP_CONCAT_actors_def keep_first_def full_name_def

lemma search_by_keyword_serving:
  "0 \<le> limit \<Longrightarrow> 0 \<le> offset \<Longrightarrow>
   search_by_keyword (Serving db) k limit offset =
     map select_film_row
       (take (nat limit) (drop (nat offset) (keyword_groups db (''%'' @ k @ ''%''))))"
  by (simp add: search_by_keyword_def execute_query_all_def SEARCH_BY_KEYWORD_def
      SEARCH_BY_KEYWORD_groups_def limit_offset_def)

lemma keyword_page_films_serving:
  "0 \<le> limit \<Longrightarrow> 0 \<le> offset \<Longrightarrow>
   keyword_page_films (Serving db) k limit offset =
     take (nat limit) (drop (nat offset) (keyword_groups db (''%'' @ k @ ''%'')))"
  by (simp add: keyword_page_films_def execute_query_all_def
      SEARCH_BY_KEYWORD_groups_def limit_offset_def)

lemma search_by_keyword_page_films:
  "search_by_keyword srv k limit offset =
     map select_film_row (keyword_page_films srv k limit offset)"
  by (cases srv)
     (simp_all add: search_by_keyword_def keyword_page_films_def execute_query_all_def
        SEARCH_BY_KEYWORD_def SEARCH_BY_KEYWORD_groups_def limit_offset_def)

lemma keyword_page_films_subset:
  "g \<in> set (keyword_page_films srv k limit offset) \<Longrightarrow>
   \<exists>db. srv = Serving db \<and> g \<in> set (keyword_groups db (''%'' @ k @ ''%''))"
proof (cases srv)
  case Unreachable
  assume "g \<in> set (keyword_page_films srv k limit offset)"
  with Unreachable show ?thesis
    by (simp add: keyword_page_films_def execute_query_all_def)
next
  case Failing
  assume "g \<in> set (keyword_page_films srv k limit offset)"
  with Failing show ?thesis
    by (simp add: keyword_page_films_def execute_query_all_def)
next
  case (Serving db)
  assume "g \<in> set (keyword_page_films srv k limit offset)"
  with Serving have "g \<in> set (take (nat limit) (drop (nat offset) (keyword_groups db (''%'' @ k @ ''%''))))"
    by (simp add: keyword_page_films_def execute_query_all_def SEARCH_BY_KEYWORD_groups_def
        limit_offset_def split: if_splits)
  then have "g \<in> set (keyword_groups db (''%'' @ k @ ''%''))"
    by (meson in_set_takeD in_set_dropD)
  with Serving show ?thesis by simp
qed

lemma search_by_keyword_length:
  "0 \<le> limit \<Longrightarrow> length (search_by_keyword srv k limit offset) \<le> nat limit"
  by (cases srv)
     (simp_all add: search_by_keyword_def execute_query_all_def SEARCH_BY_KEYWORD_def
        SEARCH_BY_KEYWORD_groups_def limit_offset_def)

text \<open>
  C1 (as amended). On a reachable catalog and for a limit and an offset that are not
  negative, \<^verbatim>\<open>search_by_keyword(k, limit, offset)\<close> is the window from \<open>offset\<close> of
  length \<open>limit\<close> of a list that holds one record per film identity, ordered by title
  ascending, of exactly the films whose title matches the LIKE pattern \<^verbatim>\<open>%k%\<close> and
  that have a category and an actor (the joins are inner joins). For a keyword without
  the characters \<^verbatim>\<open>%\<close>, \<^verbatim>\<open>_\<close> and backslash, matching the pattern is containing the
  keyword as a case-insensitive substring.
\<close>

theorem search_by_keyword_matches:
  assumes "0 \<le> limit" and "0 \<le> offset"
  shows
    "search_by_keyword (Serving db) k limit offset =
       map select_film_row
         (take (nat limit) (drop (nat offset) (keyword_groups db (''%'' @ k @ ''%'')))) \<and>
     distinct (map group_id (keyword_groups db (''%'' @ k @ ''%''))) \<and>
     (\<forall>fid. (fid \<in> group_id ` set (keyword_groups db (''%'' @ k @ ''%''))) =
        (\<exists>f. f \<in> set (films db) \<and> film_id f = fid \<and>
             like_match (''%'' @ k @ ''%'') (title f) \<and>
             has_category db fid \<and> has_actor db fid)) \<and>
     sorted (map (\<lambda>g. collation_key (title (group_film g)))
       (keyword_groups db (''%'' @ k @ ''%''))) \<and>
     map fr_title (map select_film_row (keyword_groups db (''%'' @ k @ ''%''))) =
       map (\<lambda>g. title (group_film g)) (keyword_groups db (''%'' @ k @ ''%'')) \<and>
     (\<forall>g. g \<in> set (keyword_groups db (''%'' @ k @ ''%'')) \<longrightarrow>
        group_film g \<in> set (films db) \<and> film_id (group_film g) = group_id g \<and>
        like_match (''%'' @ k @ ''%'') (title (group_film g))) \<and>
     (wildcard_free k \<longrightarrow>
        (\<forall>t. like_match (''%'' @ k @ ''%'') t =
           (\<exists>pre mid post. t = pre @ mid @ post \<and> collation_key mid = collation_key k)))"
proof -
  have "wildcard_free k \<longrightarrow>
        (\<forall>t. like_match (''%'' @ k @ ''%'') t =
           (\<exists>pre mid post. t = pre @ mid @ post \<and> collation_key mid = collation_key k))"
    using like_contains [of k] by (simp add: ci_contains_iff)
  moreover have "map fr_title (map select_film_row (keyword_groups db (''%'' @ k @ ''%''))) =
       map (\<lambda>g. title (group_film g)) (keyword_groups db (''%'' @ k @ ''%''))"
    by (simp add: select_film_row_def group_film_def)
  moreover have "\<forall>g. g \<in> set (keyword_groups db (''%'' @ k @ ''%'')) \<longrightarrow>
        group_film g \<in> set (films db) \<and> film_id (group_film g) = group_id g \<and>
        like_match (''%'' @ k @ ''%'') (title (group_film g))"
    using keyword_groups_film [of _ db "''%'' @ k @ ''%''"]
    by (simp add: group_film_def group_id_def j_id_def)
  ultimately show ?thesis
    using search_by_keyword_serving [OF assms, of db k]
      keyword_groups_distinct [of db "''%'' @ k @ ''%''"]
      keyword_groups_ids [of _ db "''%'' @ k @ ''%''"]
      keyword_groups_sorted [of db "''%'' @ k @ ''%''"]
    by (simp only: simp_thms)
qed

theorem search_by_keyword_matches_witness:
  "search_by_keyword (Serving two_films) ''INCE'' 10 0 =
     [\<lparr>fr_title = ''Inception'', fr_year = Some 2010, fr_rating = ''PG-13'',
       fr_genre = ''Drama'', fr_actors = ''Leonardo DiCaprio, Elliot Page''\<rparr>] \<and>
   wildcard_free ''INCE'' \<and>
   like_match (''%'' @ ''INCE'' @ ''%'') ''Inception'' \<and>
   (\<exists>pre mid post. ''Inception'' = pre @ mid @ post \<and>
        collation_key mid = collation_key ''INCE'')"
proof -
  have w: "wildcard_free ''INCE''"
    by (simp add: wildcard_free_def)
  have r: "search_by_keyword (Serving two_films) ''INCE'' 10 0 =
     [\<lparr>fr_title = ''Inception'', fr_year = Some 2010, fr_rating = ''PG-13'',
       fr_genre = ''Drama'', fr_actors = ''Leonardo DiCaprio, Elliot Page''\<rparr>]"
    by (simp add: eval_defs)
  have lm: "like_match (''%'' @ ''INCE'' @ ''%'') ''Inception''"
    by (simp add: ci_eq_def fold_case_def)
  have "wildcard_free ''INCE'' \<longrightarrow>
        (\<forall>t. like_match (''%'' @ ''INCE'' @ ''%'') t =
           (\<exists>pre mid post. t = pre @ mid @ post \<and> collation_key mid = collation_key ''INCE''))"
    using search_by_keyword_matches [of 10 0 two_films "''INCE''"] by (elim conjE | simp)+
  from this w have "\<forall>t. like_match (''%'' @ ''INCE'' @ ''%'') t =
           (\<exists>pre mid post. t = pre @ mid @ post \<and> collation_key mid = collation_key ''INCE'')"
    by (rule mp)
  then have "like_match (''%'' @ ''INCE'' @ ''%'') ''Inception'' =
           (\<exists>pre mid post. ''Inception'' = pre @ mid @ post \<and> collation_key mid = collation_key ''INCE'')"
    by (rule spec)
  from this lm have "\<exists>pre mid post. ''Inception'' = pre @ mid @ post \<and>
        collation_key mid = collation_key ''INCE''"
    by (rule iffD1)
  with w r lm show ?thesis by (intro conjI)
qed

text \<open>
  C1 as stated fails: a film whose title contains the keyword but that has no actor link
  is not returned, and the keyword \<^verbatim>\<open>_\<close> returns films whose titles do not contain
  an underscore.
\<close>

theorem search_by_keyword_not_all_titles:
  "map fr_title (search_by_keyword (Serving uncredited) ''ince'' 10 0) \<noteq>
     map title (spec_search_by_keyword uncredited ''ince'' 10 0) \<and>
   map fr_title (search_by_keyword (Serving two_films) ''_'' 10 0) \<noteq>
     map title (spec_search_by_keyword two_films ''_'' 10 0)"
  by (simp add: eval_defs)

subsection \<open>Pages of search\_by\_keyword\<close>

lemma keyword_groups_by_grouping:
  "keyword_groups_by (\<lambda>gs. gs) db pat = keyword_groups db pat"
  by (simp add: keyword_groups_by_def keyword_groups_def keyword_matches_def title_key_def [abs_def])

lemma search_by_keyword_by_grouping:
  "search_by_keyword_by (\<lambda>gs. gs) srv k lim offs = search_by_keyword srv k lim offs"
proof -
  have "SEARCH_BY_KEYWORD (''%'' @ k @ ''%'') lim offs =
      (\<lambda>db. map_option (map select_film_row)
         (limit_offset lim offs (keyword_groups_by (\<lambda>gs. gs) db (''%'' @ k @ ''%''))))"
    by (rule ext)
       (simp only: SEARCH_BY_KEYWORD_def SEARCH_BY_KEYWORD_groups_def keyword_groups_by_grouping)
  then show ?thesis
    by (simp only: search_by_keyword_by_def search_by_keyword_def)
qed

lemma reorder_distinct:
  assumes "set ys = set xs" "length ys = length xs" "distinct xs"
  shows "distinct ys"
proof -
  have "card (set ys) = length ys"
    using assms distinct_card [of xs] by simp
  then show ?thesis by (rule card_distinct)
qed

lemma reorder_distinct_map:
  assumes "set ys = set xs" "length ys = length xs" "distinct (map f xs)"
  shows "distinct (map f ys)"
proof -
  from assms(3) have "distinct xs" "inj_on f (set xs)"
    by (simp_all add: distinct_map)
  with assms(1,2) show ?thesis
    by (simp add: distinct_map reorder_distinct [of ys xs])
qed

lemma sort_key_reorder_unique:
  assumes "distinct (map f xs)"
    and "set ys = set xs" "length ys = length xs"
    and "set zs = set xs" "length zs = length xs"
  shows "sort_key f ys = sort_key f zs"
proof (rule map_sorted_distinct_set_unique [where f = f])
  from assms(1) have inj: "inj_on f (set xs)"
    by (simp add: distinct_map)
  show "inj_on f (set (sort_key f ys) \<union> set (sort_key f zs))"
    using inj assms(2,4) by simp
  show "sorted (map f (sort_key f ys))" "sorted (map f (sort_key f zs))"
    by simp_all
  have "distinct (map f ys)" "distinct (map f zs)"
    using assms by (simp_all add: reorder_distinct_map [of _ xs])
  then show "distinct (map f (sort_key f ys))" "distinct (map f (sort_key f zs))"
    by (simp_all add: distinct_map)
  show "set (sort_key f ys) = set (sort_key f zs)"
    using assms(2,4) by simp
qed

lemma keyword_matches_distinct: "distinct (map group_id (keyword_matches db pat))"
  unfolding keyword_matches_def by (rule group_distinct)

lemma keyword_groups_by_distinct:
  assumes "set (p (keyword_matches db pat)) = set (keyword_matches db pat)"
    and "length (p (keyword_matches db pat)) = length (keyword_matches db pat)"
  shows "distinct (map group_id (keyword_groups_by p db pat))"
proof -
  have "distinct (map group_id (p (keyword_matches db pat)))"
    using assms keyword_matches_distinct by (rule reorder_distinct_map)
  then show ?thesis
    by (simp add: keyword_groups_by_def distinct_map)
qed

lemma keyword_groups_by_ids:
  assumes "set (p (keyword_matches db pat)) = set (keyword_matches db pat)"
  shows "group_id ` set (keyword_groups_by p db pat) = group_id ` set (keyword_groups db pat)"
  using assms
  by (simp add: keyword_groups_by_def keyword_groups_def keyword_matches_def)

lemma keyword_groups_by_same:
  assumes "\<forall>i. set (ps i (keyword_matches db pat)) = set (keyword_matches db pat) \<and>
               length (ps i (keyword_matches db pat)) = length (keyword_matches db pat)"
    and "distinct (map title_key (keyword_matches db pat)) \<or> (\<forall>i. ps i = ps 0)"
  shows "keyword_groups_by (ps i) db pat = keyword_groups_by (ps 0) db pat"
  using assms(2)
proof
  assume "\<forall>i. ps i = ps 0"
  then have "ps i = ps 0" ..
  then show ?thesis by simp
next
  assume d: "distinct (map title_key (keyword_matches db pat))"
  from assms(1) have
    "set (ps i (keyword_matches db pat)) = set (keyword_matches db pat)"
    "length (ps i (keyword_matches db pat)) = length (keyword_matches db pat)"
    "set (ps 0 (keyword_matches db pat)) = set (keyword_matches db pat)"
    "length (ps 0 (keyword_matches db pat)) = length (keyword_matches db pat)"
    by simp_all
  with d show ?thesis
    unfolding keyword_groups_by_def by (rule sort_key_reorder_unique)
qed

lemma search_by_keyword_by_serving:
  "search_by_keyword_by p (Serving db) k (int L) (int off) =
     take L (drop off (map select_film_row (keyword_groups_by p db (''%'' @ k @ ''%''))))"
  by (simp add: search_by_keyword_by_def execute_query_all_def limit_offset_def take_map drop_map)

lemma keyword_page_films_by_serving:
  "keyword_page_films_by p (Serving db) k (int L) (int off) =
     take L (drop off (keyword_groups_by p db (''%'' @ k @ ''%'')))"
  by (simp add: keyword_page_films_by_def execute_query_all_def limit_offset_def)

lemma search_by_keyword_by_page_films:
  "search_by_keyword_by p srv k limit offset =
     map select_film_row (keyword_page_films_by p srv k limit offset)"
  by (cases srv)
     (simp_all add: search_by_keyword_by_def keyword_page_films_by_def execute_query_all_def
        limit_offset_def)

lemma search_by_keyword_by_length:
  "length (search_by_keyword_by q srv k (int L) (int off)) \<le> L"
  by (cases srv)
     (simp_all add: search_by_keyword_by_def execute_query_all_def limit_offset_def)

text \<open>
  C2 (as amended). Over one catalog, let every page query be an execution of the
  statement that hands the same matching films to the sort, in an order of its own
  (\<open>ps i\<close> for the page at offset \<open>i * limit\<close>). Every page holds at most
  \<open>limit\<close> records, whatever the execution. If the matching titles are pairwise
  different under the collation, or if every page query resolves equal titles alike, then
  the pages at the offsets \<open>0, limit, 2 * limit, ...\<close> laid end to end are the full
  list of matches cut at \<open>n * limit\<close>, hence the whole list once \<open>n * limit\<close>
  reaches its length, which some number of pages does for a limit of at least one; and
  the films behind two different pages are disjoint, the full list holding each film
  identity once, the identities that \<open>keyword_groups\<close> holds. The execution that
  keeps the order of the grouping is \<open>search_by_keyword\<close>.
\<close>

theorem search_by_keyword_pages_partition:
  assumes "\<forall>i. set (ps i (keyword_matches db (''%'' @ k @ ''%''))) =
                 set (keyword_matches db (''%'' @ k @ ''%'')) \<and>
               length (ps i (keyword_matches db (''%'' @ k @ ''%''))) =
                 length (keyword_matches db (''%'' @ k @ ''%''))"
    and "distinct (map title_key (keyword_matches db (''%'' @ k @ ''%''))) \<or> (\<forall>i. ps i = ps 0)"
  shows
    "length (search_by_keyword_by q srv k (int L) (int off)) \<le> L \<and>
     concat (map (\<lambda>i. search_by_keyword_by (ps i) (Serving db) k (int L) (int (i * L))) [0..<n]) =
       take (n * L) (map select_film_row (keyword_groups_by (ps 0) db (''%'' @ k @ ''%''))) \<and>
     (length (keyword_groups_by (ps 0) db (''%'' @ k @ ''%'')) \<le> n * L \<longrightarrow>
        concat (map (\<lambda>i. search_by_keyword_by (ps i) (Serving db) k (int L) (int (i * L))) [0..<n]) =
          map select_film_row (keyword_groups_by (ps 0) db (''%'' @ k @ ''%''))) \<and>
     (0 < L \<longrightarrow>
        (\<exists>m. concat (map (\<lambda>i. search_by_keyword_by (ps i) (Serving db) k (int L) (int (i * L)))
                       [0..<m]) =
          map select_film_row (keyword_groups_by (ps 0) db (''%'' @ k @ ''%'')))) \<and>
     (i \<noteq> j \<longrightarrow>
        group_id ` set (keyword_page_films_by (ps i) (Serving db) k (int L) (int (i * L))) \<inter>
        group_id ` set (keyword_page_films_by (ps j) (Serving db) k (int L) (int (j * L))) = {}) \<and>
     search_by_keyword_by (ps i) (Serving db) k (int L) (int (i * L)) =
       map select_film_row (keyword_page_films_by (ps i) (Serving db) k (int L) (int (i * L))) \<and>
     distinct (map group_id (keyword_groups_by (ps 0) db (''%'' @ k @ ''%''))) \<and>
     group_id ` set (keyword_groups_by (ps 0) db (''%'' @ k @ ''%'')) =
       group_id ` set (keyword_groups db (''%'' @ k @ ''%'')) \<and>
     search_by_keyword_by (\<lambda>gs. gs) srv k lim offs = search_by_keyword srv k lim offs"
proof -
  let ?pat = "''%'' @ k @ ''%''"
  define G where "G = keyword_groups_by (ps 0) db ?pat"
  let ?pages = "\<lambda>n. concat (map (\<lambda>i. search_by_keyword_by (ps i) (Serving db) k (int L) (int (i * L)))
                 [0..<n])"
  have same: "keyword_groups_by (ps i) db ?pat = G" for i
    unfolding G_def using assms by (rule keyword_groups_by_same)
  have r0: "set (ps 0 (keyword_matches db ?pat)) = set (keyword_matches db ?pat)"
    "length (ps 0 (keyword_matches db ?pat)) = length (keyword_matches db ?pat)"
    using assms(1) by simp_all
  have len: "length (search_by_keyword_by q srv k (int L) (int off)) \<le> L"
    by (rule search_by_keyword_by_length)
  have page: "search_by_keyword_by (ps i) (Serving db) k (int L) (int (i * L)) =
      take L (drop (i * L) (map select_film_row G))" for i
    by (simp only: search_by_keyword_by_serving same)
  have cat: "?pages n = take (n * L) (map select_film_row G)" for n
    by (simp only: page concat_pages)
  have cover: "length G \<le> n * L \<longrightarrow> ?pages n = map select_film_row G"
    by (simp only: cat) simp
  have ex: "0 < L \<longrightarrow> (\<exists>m. ?pages m = map select_film_row G)"
  proof
    assume "0 < L"
    then have "length G \<le> length G * L" by simp
    then have "?pages (length G) = map select_film_row G"
      by (simp only: cat) simp
    then show "\<exists>m. ?pages m = map select_film_row G" by (rule exI)
  qed
  have dist: "distinct (map group_id G)"
    unfolding G_def using r0 by (rule keyword_groups_by_distinct)
  have ids: "group_id ` set (keyword_page_films_by (ps i) (Serving db) k (int L) (int (i * L))) =
      set (take L (drop (i * L) (map group_id G)))" for i
    by (simp only: keyword_page_films_by_serving same) (simp add: take_map drop_map)
  have disj: "i \<noteq> j \<longrightarrow>
      group_id ` set (keyword_page_films_by (ps i) (Serving db) k (int L) (int (i * L))) \<inter>
      group_id ` set (keyword_page_films_by (ps j) (Serving db) k (int L) (int (j * L))) = {}"
  proof
    assume "i \<noteq> j"
    with dist have "set (take L (drop (i * L) (map group_id G))) \<inter>
        set (take L (drop (j * L) (map group_id G))) = {}"
      by (rule pages_disjoint)
    then show "group_id ` set (keyword_page_films_by (ps i) (Serving db) k (int L) (int (i * L))) \<inter>
      group_id ` set (keyword_page_films_by (ps j) (Serving db) k (int L) (int (j * L))) = {}"
      by (simp only: ids)
  qed
  have all: "group_id ` set G = group_id ` set (keyword_groups db ?pat)"
    unfolding G_def using r0(1) by (rule keyword_groups_by_ids)
  have pf: "search_by_keyword_by (ps i) (Serving db) k (int L) (int (i * L)) =
       map select_film_row (keyword_page_films_by (ps i) (Serving db) k (int L) (int (i * L)))"
    by (rule search_by_keyword_by_page_films)
  have gr: "search_by_keyword_by (\<lambda>gs. gs) srv k lim offs = search_by_keyword srv k lim offs"
    by (rule search_by_keyword_by_grouping)
  from len cat [of n] cover ex disj pf dist all gr
  show ?thesis
    unfolding G_def by (intro conjI)
qed

lemmas tie_eval = eval_defs twins_def keyword_matches_def title_key_def keyword_groups_by_def
  search_by_keyword_by_def keyword_page_films_by_def

theorem search_by_keyword_pages_partition_witness:
  "(\<forall>i::nat. set ((if i = 0 then (\<lambda>gs. gs) else rev) (keyword_matches two_films (''%'' @ ''e'' @ ''%''))) =
          set (keyword_matches two_films (''%'' @ ''e'' @ ''%'')) \<and>
        length ((if i = 0 then (\<lambda>gs. gs) else rev) (keyword_matches two_films (''%'' @ ''e'' @ ''%''))) =
          length (keyword_matches two_films (''%'' @ ''e'' @ ''%''))) \<and>
   distinct (map title_key (keyword_matches two_films (''%'' @ ''e'' @ ''%''))) \<and>
   concat (map (\<lambda>i. search_by_keyword_by (if i = 0 then (\<lambda>gs. gs) else rev) (Serving two_films)
                  ''e'' (int 1) (int (i * 1))) [0..<2]) =
     map select_film_row (keyword_groups two_films (''%'' @ ''e'' @ ''%'')) \<and>
   map fr_title (search_by_keyword_by (\<lambda>gs. gs) (Serving two_films) ''e'' 1 0) = [''Inception''] \<and>
   map fr_title (search_by_keyword_by rev (Serving two_films) ''e'' 1 1) = [''The Departed''] \<and>
   group_id ` set (keyword_page_films_by (\<lambda>gs. gs) (Serving two_films) ''e'' (int 1) (int (0 * 1))) \<inter>
   group_id ` set (keyword_page_films_by rev (Serving two_films) ''e'' (int 1) (int (1 * 1))) = {}"
proof -
  let ?ps = "\<lambda>i::nat. if i = 0 then (\<lambda>gs::film_group list. gs) else rev"
  let ?M = "keyword_matches two_films (''%'' @ ''e'' @ ''%'')"
  have A: "\<forall>i. set (?ps i ?M) = set ?M \<and> length (?ps i ?M) = length ?M"
    by simp
  have d: "distinct (map title_key ?M)"
    by (simp add: tie_eval)
  then have B: "distinct (map title_key ?M) \<or> (\<forall>i. ?ps i = ?ps 0)" ..
  note T = search_by_keyword_pages_partition
    [where ps = ?ps and db = two_films and k = "''e''" and L = 1 and n = 2 and i = 0 and j = 1
       and q = "\<lambda>gs. gs" and srv = "Serving two_films" and off = 0 and lim = 0 and offs = 0,
     OF A B]
  have l: "length (keyword_groups_by (?ps 0) two_films (''%'' @ ''e'' @ ''%'')) \<le> 2 * 1"
    by (simp add: tie_eval)
  have a0: "concat (map (\<lambda>i. search_by_keyword_by (?ps i) (Serving two_films)
                  ''e'' (int 1) (int (i * 1))) [0..<2]) =
     map select_film_row (keyword_groups_by (?ps 0) two_films (''%'' @ ''e'' @ ''%''))"
    by (rule mp [OF conjunct1 [OF conjunct2 [OF conjunct2 [OF T]]] l])
  have a: "concat (map (\<lambda>i. search_by_keyword_by (?ps i) (Serving two_films)
                  ''e'' (int 1) (int (i * 1))) [0..<2]) =
     map select_film_row (keyword_groups two_films (''%'' @ ''e'' @ ''%''))"
    unfolding a0 by (simp add: keyword_groups_by_grouping)
  have ne: "(0::nat) \<noteq> 1" by simp
  have d0: "group_id ` set (keyword_page_films_by (?ps 0) (Serving two_films) ''e'' (int 1) (int (0 * 1))) \<inter>
   group_id ` set (keyword_page_films_by (?ps 1) (Serving two_films) ''e'' (int 1) (int (1 * 1))) = {}"
    by (rule mp [OF conjunct1 [OF conjunct2 [OF conjunct2 [OF conjunct2 [OF conjunct2 [OF T]]]]] ne])
  have e: "?ps 0 = (\<lambda>gs. gs)" "?ps 1 = rev" by simp_all
  have dj: "group_id ` set (keyword_page_films_by (\<lambda>gs. gs) (Serving two_films) ''e'' (int 1) (int (0 * 1))) \<inter>
   group_id ` set (keyword_page_films_by rev (Serving two_films) ''e'' (int 1) (int (1 * 1))) = {}"
    using d0 unfolding e .
  have p0: "map fr_title (search_by_keyword_by (\<lambda>gs. gs) (Serving two_films) ''e'' 1 0) = [''Inception'']"
    by (simp add: tie_eval)
  have p1: "map fr_title (search_by_keyword_by rev (Serving two_films) ''e'' 1 1) = [''The Departed'']"
    by (simp add: tie_eval)
  from A d a p0 p1 dj show ?thesis by (intro conjI)
qed

text \<open>
  Without that condition the pages need not partition the matches. In \<open>twins\<close> both
  films carry the title the keyword matches; an execution that hands film 1 first to the
  sort and one that hands film 2 first both deliver a list ordered by title, and the
  first page of the one and the second page of the other (limit 1, offsets 0 and 1) are
  both film 1: the pages overlap and film 2 is on neither. And with a limit of 0 every
  page is empty, so no number of pages covers the two matches of \<open>two_films\<close>.
\<close>

theorem search_by_keyword_pages_overlap:
  "set (rev (keyword_matches twins (''%'' @ ''twin'' @ ''%''))) =
     set (keyword_matches twins (''%'' @ ''twin'' @ ''%'')) \<and>
   map group_id (keyword_matches twins (''%'' @ ''twin'' @ ''%'')) = [1, 2] \<and>
   map fr_title (map select_film_row (keyword_groups_by rev twins (''%'' @ ''twin'' @ ''%''))) =
     map fr_title (map select_film_row (keyword_groups_by (\<lambda>gs. gs) twins (''%'' @ ''twin'' @ ''%''))) \<and>
   map group_id (keyword_page_films_by (\<lambda>gs. gs) (Serving twins) ''twin'' 1 0) = [1] \<and>
   map group_id (keyword_page_films_by rev (Serving twins) ''twin'' 1 1) = [1] \<and>
   map fr_year (search_by_keyword_by (\<lambda>gs. gs) (Serving twins) ''twin'' 1 0) = [Some 2001] \<and>
   map fr_year (search_by_keyword_by rev (Serving twins) ''twin'' 1 1) = [Some 2001] \<and>
   concat (map (\<lambda>i. search_by_keyword (Serving two_films) ''e'' 0 (int (i * 0))) [0..<3]) = [] \<and>
   map fr_title (search_by_keyword (Serving two_films) ''e'' 2 0) = [''Inception'', ''The Departed'']"
proof -
  have s: "set (rev (keyword_matches twins (''%'' @ ''twin'' @ ''%''))) =
     set (keyword_matches twins (''%'' @ ''twin'' @ ''%''))"
    by simp
  have m: "map group_id (keyword_matches twins (''%'' @ ''twin'' @ ''%'')) = [1, 2]"
    by (simp add: tie_eval)
  have t: "map fr_title (map select_film_row (keyword_groups_by rev twins (''%'' @ ''twin'' @ ''%''))) =
     map fr_title (map select_film_row (keyword_groups_by (\<lambda>gs. gs) twins (''%'' @ ''twin'' @ ''%'')))"
    by (simp add: tie_eval)
  have g0: "map group_id (keyword_page_films_by (\<lambda>gs. gs) (Serving twins) ''twin'' 1 0) = [1]"
    by (simp add: tie_eval)
  have g1: "map group_id (keyword_page_films_by rev (Serving twins) ''twin'' 1 1) = [1]"
    by (simp add: tie_eval)
  have y0: "map fr_year (search_by_keyword_by (\<lambda>gs. gs) (Serving twins) ''twin'' 1 0) = [Some 2001]"
    by (simp add: tie_eval)
  have y1: "map fr_year (search_by_keyword_by rev (Serving twins) ''twin'' 1 1) = [Some 2001]"
    by (simp add: tie_eval)
  have z: "concat (map (\<lambda>i. search_by_keyword (Serving two_films) ''e'' 0 (int (i * 0))) [0..<3]) = []"
    by (simp add: search_by_keyword_def execute_query_all_def SEARCH_BY_KEYWORD_def
        SEARCH_BY_KEYWORD_groups_def limit_offset_def)
  have f: "map fr_title (search_by_keyword (Serving two_films) ''e'' 2 0) =
      [''Inception'', ''The Departed'']"
    by (simp add: eval_defs)
  from s m t g0 g1 y0 y1 z f show ?thesis by (intro conjI)
qed

subsection \<open>The inner joins: every result has an actor and a category\<close>

lemma genre_year_groups_film:
  assumes "g \<in> set (genre_year_groups db genre yf yt)"
  shows "group_film g \<in> set (films db) \<and>
         has_category db (group_id g) \<and> has_actor db (group_id g)"
proof -
  let ?P = "\<lambda>r. collation_key (name (j_category r)) = collation_key genre \<and>
                 between (release_year (j_film r)) yf yt"
  from assms have "g \<in> set (group_by_film_id (filter ?P (film_join db)))"
    by (simp add: genre_year_groups_def)
  then have "fst g \<in> set (filter ?P (film_join db))"
    by (rule group_first)
  then have "fst g \<in> set (film_join db)"
    by simp
  with film_join_film [of "fst g" db] show ?thesis
    by (simp add: group_film_def group_id_def)
qed

lemma genre_year_page_films_subset:
  "g \<in> set (genre_year_page_films srv genre yf yt limit offset) \<Longrightarrow>
   \<exists>db. srv = Serving db \<and> g \<in> set (genre_year_groups db genre yf yt)"
proof (cases srv)
  case Unreachable
  assume "g \<in> set (genre_year_page_films srv genre yf yt limit offset)"
  with Unreachable show ?thesis
    by (simp add: genre_year_page_films_def execute_query_all_def)
next
  case Failing
  assume "g \<in> set (genre_year_page_films srv genre yf yt limit offset)"
  with Failing show ?thesis
    by (simp add: genre_year_page_films_def execute_query_all_def)
next
  case (Serving db)
  assume "g \<in> set (genre_year_page_films srv genre yf yt limit offset)"
  with Serving have "g \<in> set (take (nat limit) (drop (nat offset) (genre_year_groups db genre yf yt)))"
    by (simp add: genre_year_page_films_def execute_query_all_def
        SEARCH_BY_GENRE_AND_YEAR_groups_def limit_offset_def split: if_splits)
  then have "g \<in> set (genre_year_groups db genre yf yt)"
    by (meson in_set_takeD in_set_dropD)
  with Serving show ?thesis by simp
qed

lemma search_by_genre_and_year_page_films:
  "search_by_genre_and_year srv genre yf yt limit offset =
     map select_film_row (genre_year_page_films srv genre yf yt limit offset)"
  by (cases srv)
     (simp_all add: search_by_genre_and_year_def genre_year_page_films_def execute_query_all_def
        SEARCH_BY_GENRE_AND_YEAR_def SEARCH_BY_GENRE_AND_YEAR_groups_def limit_offset_def)

lemma join_sep_nonempty: "x \<noteq> [] \<Longrightarrow> join_sep sep (x # xs) \<noteq> []"
  by (cases xs) simp_all

lemma GROUP_CONCAT_actors_nonempty: "as \<noteq> [] \<Longrightarrow> GROUP_CONCAT_actors as \<noteq> []"
proof -
  assume "as \<noteq> []"
  let ?ns = "keep_first (map full_name (sort_key (\<lambda>a. collation_key (last_name a)) as))"
  have s: "set ?ns = full_name ` set as"
    by (simp add: keep_first_def)
  with \<open>as \<noteq> []\<close> have "?ns \<noteq> []"
    by (metis image_is_empty set_empty)
  then obtain x xs where ns: "?ns = x # xs"
    by (cases ?ns) simp_all
  then have "x \<in> full_name ` set as"
    using s by (metis list.set_intros(1))
  then have "x \<noteq> []"
    by (auto simp: full_name_def)
  then show ?thesis
    unfolding GROUP_CONCAT_actors_def ns by (rule join_sep_nonempty)
qed

lemma select_film_row_group:
  "fr_title (select_film_row g) = title (group_film g) \<and>
   fr_year (select_film_row g) = release_year (group_film g) \<and>
   fr_rating (select_film_row g) = rating (group_film g) \<and>
   fr_actors (select_film_row g) \<noteq> []"
  by (simp add: select_film_row_def group_film_def GROUP_CONCAT_actors_nonempty)

lemma page_group_has_cast:
  assumes "g \<in> set (keyword_page_films srv k limit offset) \<or>
           g \<in> set (genre_year_page_films srv genre yf yt limit offset)"
  shows "\<exists>db. srv = Serving db \<and> group_film g \<in> set (films db) \<and>
           has_category db (group_id g) \<and> has_actor db (group_id g)"
  using assms
proof
  assume "g \<in> set (keyword_page_films srv k limit offset)"
  then obtain db where "srv = Serving db" "g \<in> set (keyword_groups db (''%'' @ k @ ''%''))"
    using keyword_page_films_subset by blast
  with keyword_groups_film [of g db] show ?thesis by simp
next
  assume "g \<in> set (genre_year_page_films srv genre yf yt limit offset)"
  then obtain db where "srv = Serving db" "g \<in> set (genre_year_groups db genre yf yt)"
    using genre_year_page_films_subset by blast
  with genre_year_groups_film [of g db] show ?thesis by simp
qed

text \<open>
  C10. Every record that \<^verbatim>\<open>search_by_keyword\<close> or \<^verbatim>\<open>search_by_genre_and_year\<close>
  returns is the record of a film of the catalog that has at least one actor and at least
  one category (and its actors column is not empty); a film without an actor or without a
  category is behind no record of any page, whatever the keyword, genre, years, limit and
  offset are.
\<close>

theorem search_results_have_actor_and_category:
  "(r \<in> set (search_by_keyword srv k limit offset) \<or>
    r \<in> set (search_by_genre_and_year srv genre yf yt limit offset) \<longrightarrow>
      (\<exists>db f. srv = Serving db \<and> f \<in> set (films db) \<and>
         fr_title r = title f \<and> fr_year r = release_year f \<and> fr_rating r = rating f \<and>
         fr_actors r \<noteq> [] \<and>
         has_category db (film_id f) \<and> has_actor db (film_id f))) \<and>
   (\<not> has_actor db fid \<or> \<not> has_category db fid \<longrightarrow>
      fid \<notin> group_id ` set (keyword_page_films (Serving db) k limit offset) \<and>
      fid \<notin> group_id ` set (genre_year_page_films (Serving db) genre yf yt limit offset))"
proof (intro conjI impI)
  assume "r \<in> set (search_by_keyword srv k limit offset) \<or>
    r \<in> set (search_by_genre_and_year srv genre yf yt limit offset)"
  then obtain g where r: "r = select_film_row g" and
    g: "g \<in> set (keyword_page_films srv k limit offset) \<or>
        g \<in> set (genre_year_page_films srv genre yf yt limit offset)"
    unfolding search_by_keyword_page_films search_by_genre_and_year_page_films
    by (metis (no_types, lifting) imageE list.set_map)
  from page_group_has_cast [OF g] obtain db where db: "srv = Serving db"
    "group_film g \<in> set (films db)" "has_category db (group_id g)" "has_actor db (group_id g)"
    by blast
  have "film_id (group_film g) = group_id g"
    by (simp add: group_film_def group_id_def j_id_def)
  with db have "srv = Serving db \<and> group_film g \<in> set (films db) \<and>
         fr_title r = title (group_film g) \<and> fr_year r = release_year (group_film g) \<and>
         fr_rating r = rating (group_film g) \<and> fr_actors r \<noteq> [] \<and>
         has_category db (film_id (group_film g)) \<and> has_actor db (film_id (group_film g))"
    using select_film_row_group [of g] by (simp add: r)
  then show "\<exists>db f. srv = Serving db \<and> f \<in> set (films db) \<and>
         fr_title r = title f \<and> fr_year r = release_year f \<and> fr_rating r = rating f \<and>
         fr_actors r \<noteq> [] \<and>
         has_category db (film_id f) \<and> has_actor db (film_id f)"
    by (intro exI)
next
  assume no: "\<not> has_actor db fid \<or> \<not> has_category db fid"
  show "fid \<notin> group_id ` set (keyword_page_films (Serving db) k limit offset)"
  proof
    assume "fid \<in> group_id ` set (keyword_page_films (Serving db) k limit offset)"
    then obtain g where "g \<in> set (keyword_page_films (Serving db) k limit offset)" "group_id g = fid"
      by (metis imageE)
    with page_group_has_cast [where g = g and srv = "Serving db" and k = k and limit = limit and offset = offset] no show False
      by simp
  qed
next
  assume no: "\<not> has_actor db fid \<or> \<not> has_category db fid"
  show "fid \<notin> group_id ` set (genre_year_page_films (Serving db) genre yf yt limit offset)"
  proof
    assume "fid \<in> group_id ` set (genre_year_page_films (Serving db) genre yf yt limit offset)"
    then obtain g where "g \<in> set (genre_year_page_films (Serving db) genre yf yt limit offset)"
      "group_id g = fid"
      by (metis imageE)
    with page_group_has_cast [where g = g and srv = "Serving db" and genre = genre and yf = yf and yt = yt and limit = limit and offset = offset] no show False
      by simp
  qed
qed


theorem search_results_have_actor_and_category_witness:
  "\<lparr>fr_title = ''Inception'', fr_year = Some 2010, fr_rating = ''PG-13'',
     fr_genre = ''Drama'', fr_actors = ''Leonardo DiCaprio, Elliot Page''\<rparr>
     \<in> set (search_by_keyword (Serving two_films) ''ince'' 10 0) \<and>
   (\<exists>db f. Serving two_films = Serving db \<and> f \<in> set (films db) \<and>
      ''Inception'' = title f \<and> Some 2010 = release_year f \<and> ''PG-13'' = rating f \<and>
      has_category db (film_id f) \<and> has_actor db (film_id f)) \<and>
   \<not> has_actor uncredited 1 \<and>
   1 \<notin> group_id ` set (keyword_page_films (Serving uncredited) ''ince'' 10 0) \<and>
   1 \<notin> group_id ` set (genre_year_page_films (Serving uncredited) ''Drama'' 2000 2020 10 0)"
proof -
  let ?r = "\<lparr>fr_title = ''Inception'', fr_year = Some 2010, fr_rating = ''PG-13'',
     fr_genre = ''Drama'', fr_actors = ''Leonardo DiCaprio, Elliot Page''\<rparr>"
  note T = search_results_have_actor_and_category
    [where r = ?r and srv = "Serving two_films" and k = "''ince''" and limit = 10 and offset = 0
       and genre = "''Drama''" and yf = 2000 and yt = 2020 and db = uncredited and fid = 1]
  have a: "?r \<in> set (search_by_keyword (Serving two_films) ''ince'' 10 0)"
    by (simp add: eval_defs)
  have b: "\<not> has_actor uncredited 1"
    by (simp add: has_actor_def uncredited_def two_films_def)
  have "\<exists>db f. Serving two_films = Serving db \<and> f \<in> set (films db) \<and>
         fr_title ?r = title f \<and> fr_year ?r = release_year f \<and> fr_rating ?r = rating f \<and>
         fr_actors ?r \<noteq> [] \<and>
         has_category db (film_id f) \<and> has_actor db (film_id f)"
    by (rule mp [OF conjunct1 [OF T] disjI1 [OF a]])
  then have c: "\<exists>db f. Serving two_films = Serving db \<and> f \<in> set (films db) \<and>
      ''Inception'' = title f \<and> Some 2010 = release_year f \<and> ''PG-13'' = rating f \<and>
      has_category db (film_id f) \<and> has_actor db (film_id f)"
    by simp
  have d: "1 \<notin> group_id ` set (keyword_page_films (Serving uncredited) ''ince'' 10 0) \<and>
   1 \<notin> group_id ` set (genre_year_page_films (Serving uncredited) ''Drama'' 2000 2020 10 0)"
    by (rule mp [OF conjunct2 [OF T] disjI1 [OF b]])
  from a c b d show ?thesis by (intro conjI) simp_all
qed

section \<open>Properties of the analytics store\<close>

subsection \<open>get\_popular\_queries\<close>

lemma get_mongo_collection_up:
  "\<exists>h m'. get_mongo_collection (MongoUp docs) m = (Some h, m')"
  by (cases "mongo_collection m") (simp_all add: get_mongo_collection_def Let_def)

lemma group_count_keys: "fst ` set (group_count ks) = set ks"
proof (induction ks rule: group_count.induct)
  case 1
  show ?case by simp
next
  case (2 k ks)
  then show ?case by auto
qed

lemma group_count_distinct: "distinct (map fst (group_count ks))"
proof (induction ks rule: group_count.induct)
  case 1
  show ?case by simp
next
  case (2 k ks)
  have "k \<notin> fst ` set (group_count (filter (\<lambda>x. x \<noteq> k) ks))"
    unfolding group_count_keys by simp
  with 2 show ?case by simp
qed

lemma group_count_member:
  "((k, c) \<in> set (group_count ks)) = (c = length (filter (\<lambda>x. x = k) ks) \<and> 0 < c)"
proof (induction ks rule: group_count.induct)
  case 1
  show ?case by auto
next
  case (2 a ks)
  show ?case
  proof (cases "k = a")
    case True
    have "a \<notin> fst ` set (group_count (filter (\<lambda>x. x \<noteq> a) ks))"
      unfolding group_count_keys by simp
    then have "(a, c) \<notin> set (group_count (filter (\<lambda>x. x \<noteq> a) ks))"
      by (metis fst_conv image_eqI)
    with True show ?thesis by auto
  next
    case False
    have "filter (\<lambda>x. x = k) (filter (\<lambda>x. x \<noteq> a) ks) = filter (\<lambda>x. x = k) ks"
      using False by (induction ks) auto
    with False 2 show ?thesis by simp
  qed
qed

lemma group_count_sum: "sum_list (map snd (group_count ks)) = length ks"
proof (induction ks rule: group_count.induct)
  case 1
  show ?case by simp
next
  case (2 k ks)
  have "length (filter (\<lambda>x. x = k) ks) + length (filter (\<lambda>x. x \<noteq> k) ks) = length ks"
    by (rule sum_length_filter_compl)
  with 2 show ?case by simp
qed

lemma sum_list_insort_key:
  "sum_list (map f (insort_key k x xs)) = f x + sum_list (map (f :: 'a \<Rightarrow> nat) xs)"
  by (induction xs) simp_all

lemma sum_list_sort_key:
  "sum_list (map f (sort_key k xs)) = sum_list (map (f :: 'a \<Rightarrow> nat) xs)"
  by (induction xs) (simp_all add: sum_list_insort_key)

lemma sum_list_take_le: "sum_list (take n xs) \<le> sum_list (xs :: nat list)"
proof -
  have "sum_list (take n xs) + sum_list (drop n xs) = sum_list xs"
    by (metis append_take_drop_id sum_list.append)
  then show ?thesis by simp
qed

lemma sort_descending_set [simp]: "set (sort_descending f xs) = set xs"
  by (simp add: sort_descending_def)

lemma sort_descending_length [simp]: "length (sort_descending f xs) = length xs"
  by (simp add: sort_descending_def)

lemma sort_descending_distinct_map:
  "distinct (map g (sort_descending f xs)) = distinct (map g xs)"
  by (simp add: sort_descending_def distinct_map)

lemma sort_descending_sorted:
  "sorted_wrt (\<lambda>a b. f b \<le> f a) (sort_descending f xs)"
proof -
  have "sorted (map (\<lambda>x. - int (f x)) (sort_descending f xs))"
    unfolding sort_descending_def by (rule sorted_sort_key)
  then show ?thesis
    by (simp add: sorted_map)
qed

lemma popular_groups_sum: "sum_list (map snd (popular_groups docs)) = length docs"
  by (simp add: popular_groups_def sort_descending_def sum_list_sort_key group_count_sum)

lemma get_popular_queries_up:
  "0 \<le> L \<Longrightarrow> L < 2 ^ 63 \<Longrightarrow>
   \<exists>m'. get_popular_queries L (MongoUp docs, m) = Inr (take (nat L) (popular_groups docs), m')"
proof -
  assume L: "0 \<le> L" "L < 2 ^ 63"
  then have i: "int64 L" by (simp add: int64_def)
  obtain h m' where "get_mongo_collection (MongoUp docs) m = (Some h, m')"
    using get_mongo_collection_up by blast
  with L(1) i show ?thesis
    by (cases "L = 0") (simp_all add: get_popular_queries_def popular_pipeline_def)
qed

lemma get_popular_queries_overflow:
  "\<not> int64 L \<Longrightarrow> get_popular_queries L (MongoUp docs, m) = Inl OverflowError"
proof -
  assume "\<not> int64 L"
  obtain h m' where "get_mongo_collection (MongoUp docs) m = (Some h, m')"
    using get_mongo_collection_up by blast
  with \<open>\<not> int64 L\<close> show ?thesis
    by (simp add: get_popular_queries_def)
qed

lemma get_popular_queries_sum:
  "get_popular_queries L (srv, m) = Inr (rows, m') \<Longrightarrow>
   sum_list (map snd rows) \<le> length (stored_events srv)"
proof (cases srv)
  case MongoDown
  assume "get_popular_queries L (srv, m) = Inr (rows, m')"
  with MongoDown have "rows = []"
    by (auto simp: get_popular_queries_def split: prod.splits option.splits)
  then show ?thesis by simp
next
  case (MongoUp docs)
  assume "get_popular_queries L (srv, m) = Inr (rows, m')"
  with MongoUp have "rows = [] \<or> rows = take (nat L) (popular_groups docs)"
    by (auto simp: get_popular_queries_def popular_pipeline_def
        split: prod.splits option.splits if_splits)
  moreover have "sum_list (take (nat L) (map snd (popular_groups docs))) \<le> length docs"
    using sum_list_take_le [of "nat L" "map snd (popular_groups docs)"]
    by (simp add: popular_groups_sum)
  ultimately show ?thesis
    using MongoUp by (auto simp: stored_events_def take_map)
qed

text \<open>
  C5 (as amended). For a limit from 0 up to the largest 64-bit integer,
  \<^verbatim>\<open>get_popular_queries(limit)\<close> on a reachable store returns the first \<open>limit\<close>
  entries of a list that holds each triple of (keyword, genre, year\_range) occurring in
  the log once, paired with the number of events that have the triple, in descending
  order of that number. Whenever the call returns, the counts returned sum to at most the
  number of logged events.
\<close>

theorem get_popular_queries_top_groups:
  assumes "0 \<le> L" and "L < 2 ^ 63"
  shows
    "(\<exists>m'. get_popular_queries L (MongoUp docs, m) =
        Inr (take (nat L) (popular_groups docs), m')) \<and>
     distinct (map fst (popular_groups docs)) \<and>
     (\<forall>k c. ((k, c) \<in> set (popular_groups docs)) =
        (c = length (filter (\<lambda>e. event_key e = k) docs) \<and> 0 < c)) \<and>
     sorted_wrt (\<lambda>a b. snd b \<le> snd a) (popular_groups docs) \<and>
     (get_popular_queries L (srv, md) = Inr (rows, md') \<longrightarrow>
        sum_list (map snd rows) \<le> length (stored_events srv))"
proof -
  have d: "distinct (map fst (popular_groups docs))"
    by (simp add: popular_groups_def sort_descending_distinct_map group_count_distinct)
  have "length (filter (\<lambda>x. x = k) (map event_key docs)) =
        length (filter (\<lambda>e. event_key e = k) docs)" for k
    by (simp add: filter_map comp_def)
  then have c: "\<forall>k c. ((k, c) \<in> set (popular_groups docs)) =
        (c = length (filter (\<lambda>e. event_key e = k) docs) \<and> 0 < c)"
    by (simp add: popular_groups_def group_count_member)
  have s: "sorted_wrt (\<lambda>a b. snd b \<le> snd a) (popular_groups docs)"
    unfolding popular_groups_def by (rule sort_descending_sorted)
  have u: "get_popular_queries L (srv, md) = Inr (rows, md') \<longrightarrow>
        sum_list (map snd rows) \<le> length (stored_events srv)"
    using get_popular_queries_sum by blast
  from get_popular_queries_up [OF assms] d c s u show ?thesis
    by (intro conjI)
qed

lemmas analytics_eval = demo_log_def busy_log_def module_start_def get_mongo_collection_def
  get_popular_queries_def popular_pipeline_def popular_groups_def sort_descending_def
  event_key_def dict_get_def get_recent_queries_def cursor_limit_def stored_events_def
  int64_def

theorem get_popular_queries_top_groups_witness:
  "get_popular_queries 2 (MongoUp busy_log, module_start) =
     Inr ([((Some (PStr ''ince''), None, None), 3),
           ((None, Some (PStr ''Drama''), Some (PStr ''2006'')), 2)],
          \<lparr>mongo_client = Some 0, mongo_collection = Some 0, clients_made = 1\<rparr>) \<and>
   take (nat 2) (popular_groups busy_log) =
     [((Some (PStr ''ince''), None, None), 3),
      ((None, Some (PStr ''Drama''), Some (PStr ''2006'')), 2)] \<and>
   popular_groups busy_log =
     [((Some (PStr ''ince''), None, None), 3),
      ((None, Some (PStr ''Drama''), Some (PStr ''2006'')), 2),
      ((None, Some (PStr ''Drama''), Some (PStr ''2000-2010'')), 1)] \<and>
   sum_list (map snd [((Some (PStr ''ince''), None, None), 3 :: nat),
                      ((None, Some (PStr ''Drama''), Some (PStr ''2006'')), 2)]) \<le>
     length (stored_events (MongoUp busy_log))"
proof -
  let ?m1 = "\<lparr>mongo_client = Some 0, mongo_collection = Some 0, clients_made = 1\<rparr>"
  let ?rows = "[((Some (PStr ''ince''), None, None), 3 :: nat),
                ((None, Some (PStr ''Drama''), Some (PStr ''2006'')), 2)]"
  have l: "(0::int) \<le> 2" and b: "(2::int) < 2 ^ 63" by simp_all
  note T = get_popular_queries_top_groups
    [OF l b, where docs = busy_log and m = module_start and srv = "MongoUp busy_log"
       and md = module_start and rows = ?rows and md' = ?m1]
  have g: "popular_groups busy_log =
     [((Some (PStr ''ince''), None, None), 3),
      ((None, Some (PStr ''Drama''), Some (PStr ''2006'')), 2),
      ((None, Some (PStr ''Drama''), Some (PStr ''2000-2010'')), 1)]"
    by (simp add: analytics_eval)
  have e: "take (nat 2) (popular_groups busy_log) = ?rows"
    by (simp add: g)
  have m: "get_mongo_collection (MongoUp busy_log) module_start = (Some 0, ?m1)"
    by (simp add: get_mongo_collection_def module_start_def)
  have a: "get_popular_queries 2 (MongoUp busy_log, module_start) = Inr (?rows, ?m1)"
    by (simp add: get_popular_queries_def m int64_def popular_pipeline_def g)
  have s: "sum_list (map snd ?rows) \<le> length (stored_events (MongoUp busy_log))"
    by (rule mp [OF conjunct2 [OF conjunct2 [OF conjunct2 [OF conjunct2 [OF T]]]] a])
  from a e g s show ?thesis by (intro conjI)
qed

text \<open>
  C5 as stated fails for a limit that does not fit 64 bits: the call raises instead of
  returning the groups.
\<close>

theorem get_popular_queries_huge_limit:
  "(0::int) \<le> 2 ^ 63 \<and>
   get_popular_queries (2 ^ 63) (MongoUp busy_log, module_start) = Inl OverflowError"
  by (simp add: get_popular_queries_overflow int64_def)

subsection \<open>get\_recent\_queries\<close>

lemma get_recent_queries_up:
  "fst (get_recent_queries L (MongoUp docs, m)) =
     cursor_limit L (sort_descending ev_timestamp docs)"
proof -
  obtain h m' where "get_mongo_collection (MongoUp docs) m = (Some h, m')"
    using get_mongo_collection_up by blast
  then show ?thesis
    by (simp add: get_recent_queries_def)
qed

lemma get_recent_queries_positive:
  "0 < L \<Longrightarrow>
   fst (get_recent_queries L (MongoUp docs, m)) = take (nat L) (sort_descending ev_timestamp docs) \<and>
   sorted_wrt (\<lambda>a b. ev_timestamp b \<le> ev_timestamp a) (fst (get_recent_queries L (MongoUp docs, m))) \<and>
   length (fst (get_recent_queries L (MongoUp docs, m))) = min (nat L) (length docs)"
proof -
  assume "0 < L"
  then have r: "fst (get_recent_queries L (MongoUp docs, m)) =
      take (nat L) (sort_descending ev_timestamp docs)"
    by (simp add: get_recent_queries_up cursor_limit_def)
  have "sorted_wrt (\<lambda>a b. ev_timestamp b \<le> ev_timestamp a) (sort_descending ev_timestamp docs)"
    by (rule sort_descending_sorted)
  then have "sorted_wrt (\<lambda>a b. ev_timestamp b \<le> ev_timestamp a)
      (take (nat L) (sort_descending ev_timestamp docs))"
    by (rule sorted_wrt_take)
  with r show ?thesis by simp
qed

lemma get_recent_queries_first_is_latest:
  assumes "0 < L" and "e \<in> set docs"
  shows "\<exists>x xs. fst (get_recent_queries L (MongoUp docs, m)) = x # xs \<and> x \<in> set docs \<and>
           ev_timestamp e \<le> ev_timestamp x"
proof -
  let ?s = "sort_descending ev_timestamp docs"
  from assms(2) have "?s \<noteq> []"
    by (metis empty_iff list.set(1) sort_descending_set)
  then obtain x xs where s: "?s = x # xs"
    by (cases ?s) simp_all
  have st: "sorted_wrt (\<lambda>a b. ev_timestamp b \<le> ev_timestamp a) (x # xs)"
    using sort_descending_sorted [of ev_timestamp docs] by (simp only: s)
  have "e \<in> set (x # xs)"
    using assms(2) sort_descending_set [of ev_timestamp docs] by (simp only: s)
  with st have le: "ev_timestamp e \<le> ev_timestamp x"
    by auto
  have xin: "x \<in> set docs"
    using sort_descending_set [of ev_timestamp docs] s by (metis list.set_intros(1))
  from assms(1) obtain n where n: "nat L = Suc n"
    by (cases "nat L") simp_all
  have "fst (get_recent_queries L (MongoUp docs, m)) = x # take n xs"
    using get_recent_queries_positive [OF assms(1), of docs m] by (simp add: s n)
  with xin le show ?thesis by blast
qed

text \<open>
  C6. \<^verbatim>\<open>get_recent_queries(limit)\<close> is said to return the \<open>limit\<close> most recent
  events for every limit from 0 on. With the limit 0 the driver's cursor has no limit, so
  every logged event is returned, not none: three events for the log of three. (For a
  limit of at least one the claim holds: \<open>get_recent_queries_positive\<close> and
  \<open>get_recent_queries_first_is_latest\<close>.)
\<close>

theorem get_recent_queries_limit_zero:
  "fst (get_recent_queries 0 (MongoUp docs, m)) = sort_descending ev_timestamp docs \<and>
   length (fst (get_recent_queries 0 (MongoUp docs, m))) = length docs \<and>
   length (fst (get_recent_queries 0 (MongoUp demo_log, module_start))) = 3"
  by (simp add: get_recent_queries_up cursor_limit_def demo_log_def)

section \<open>Connection handles\<close>

lemma get_mongo_collection_cached:
  "mongo_collection m = Some h \<Longrightarrow> get_mongo_collection srv m = (Some h, m)"
  by (simp add: get_mongo_collection_def)

lemma get_mongo_collection_result:
  "get_mongo_collection srv m = (Some h, m') \<Longrightarrow> mongo_collection m' = Some h"
  by (cases "mongo_collection m"; cases srv)
     (auto simp: get_mongo_collection_def Let_def)

lemma get_mongo_collection_fresh:
  "mongo_collection m = None \<Longrightarrow>
   clients_made (snd (get_mongo_collection srv m)) = Suc (clients_made m) \<and>
   get_mongo_collection (MongoUp docs) m =
     (Some (clients_made m),
      m\<lparr>mongo_client := Some (clients_made m), clients_made := Suc (clients_made m),
        mongo_collection := Some (clients_made m)\<rparr>) \<and>
   get_mongo_collection MongoDown m =
     (None, m\<lparr>mongo_client := Some (clients_made m), clients_made := Suc (clients_made m)\<rparr>)"
  by (cases srv) (simp_all add: get_mongo_collection_def Let_def)

lemma execute_query_connection_fresh:
  "srv \<noteq> Unreachable \<Longrightarrow>
   fst (execute_query_connection srv c) = Some (connections_made c) \<and>
   connections_made (snd (execute_query_connection srv c)) = Suc (connections_made c) \<and>
   connections_made c \<notin> set (open_connections (snd (execute_query_connection srv c)))"
  by (cases srv) (simp_all add: execute_query_connection_def get_db_connection_def)

text \<open>
  C7 (as amended). The analytics handle of a module is created lazily and cached: it is
  unset at the start; a call that finds it unset constructs one client and, when the
  server answers, stores and returns the new handle (when it does not, nothing is
  cached); a call that finds a handle returns it without constructing a client, so after
  one successful call every later call returns the same handle, whatever the server
  does. The catalog connection is not cached: every \<^verbatim>\<open>execute_query\<close> on a reachable
  server works on a connection made for it and closes it before it returns.
\<close>

theorem analytics_handle_cached_catalog_connection_fresh:
  "mongo_collection module_start = None \<and>
   (mongo_collection m = None \<longrightarrow>
      clients_made (snd (get_mongo_collection srv m)) = Suc (clients_made m) \<and>
      fst (get_mongo_collection (MongoUp docs) m) = Some (clients_made m) \<and>
      mongo_collection (snd (get_mongo_collection (MongoUp docs) m)) = Some (clients_made m) \<and>
      fst (get_mongo_collection MongoDown m) = None \<and>
      mongo_collection (snd (get_mongo_collection MongoDown m)) = None) \<and>
   (mongo_collection m = Some h \<longrightarrow> get_mongo_collection srv m = (Some h, m)) \<and>
   (get_mongo_collection srv m = (Some h, m') \<longrightarrow>
      get_mongo_collection srv' m' = (Some h, m') \<and>
      clients_made (snd (get_mongo_collection srv' m')) = clients_made m') \<and>
   (csrv \<noteq> Unreachable \<longrightarrow>
      fst (execute_query_connection csrv c) = Some (connections_made c) \<and>
      connections_made (snd (execute_query_connection csrv c)) = Suc (connections_made c) \<and>
      connections_made c \<notin> set (open_connections (snd (execute_query_connection csrv c))))"
proof (intro conjI impI)
  show "mongo_collection module_start = None"
    by (simp add: module_start_def)
next
  assume n: "mongo_collection m = None"
  from get_mongo_collection_fresh [OF n, of srv docs]
  show "clients_made (snd (get_mongo_collection srv m)) = Suc (clients_made m)"
    "fst (get_mongo_collection (MongoUp docs) m) = Some (clients_made m)"
    "mongo_collection (snd (get_mongo_collection (MongoUp docs) m)) = Some (clients_made m)"
    "fst (get_mongo_collection MongoDown m) = None"
    "mongo_collection (snd (get_mongo_collection MongoDown m)) = None"
    by (simp_all add: n)
next
  assume "mongo_collection m = Some h"
  then show "get_mongo_collection srv m = (Some h, m)"
    by (rule get_mongo_collection_cached)
next
  assume g: "get_mongo_collection srv m = (Some h, m')"
  then have "mongo_collection m' = Some h"
    by (rule get_mongo_collection_result)
  then show "get_mongo_collection srv' m' = (Some h, m')"
    "clients_made (snd (get_mongo_collection srv' m')) = clients_made m'"
    by (simp_all add: get_mongo_collection_cached)
next
  assume "csrv \<noteq> Unreachable"
  from execute_query_connection_fresh [OF this, of c]
  show "fst (execute_query_connection csrv c) = Some (connections_made c)"
    "connections_made (snd (execute_query_connection csrv c)) = Suc (connections_made c)"
    "connections_made c \<notin> set (open_connections (snd (execute_query_connection csrv c)))"
    by simp_all
qed

theorem analytics_handle_cached_witness:
  "mongo_collection module_start = None \<and>
   fst (get_mongo_collection (MongoUp demo_log) module_start) = Some 0 \<and>
   get_mongo_collection (MongoUp demo_log) module_start =
     (Some 0, \<lparr>mongo_client = Some 0, mongo_collection = Some 0, clients_made = 1\<rparr>) \<and>
   get_mongo_collection MongoDown
     \<lparr>mongo_client = Some 0, mongo_collection = Some 0, clients_made = 1\<rparr> =
     (Some 0, \<lparr>mongo_client = Some 0, mongo_collection = Some 0, clients_made = 1\<rparr>) \<and>
   get_mongo_collection (MongoUp [])
     \<lparr>mongo_client = Some 0, mongo_collection = Some 0, clients_made = 1\<rparr> =
     (Some 0, \<lparr>mongo_client = Some 0, mongo_collection = Some 0, clients_made = 1\<rparr>) \<and>
   fst (execute_query_connection (Serving two_films) mysql_start) = Some 0"
proof -
  let ?m1 = "\<lparr>mongo_client = Some 0, mongo_collection = Some 0, clients_made = 1\<rparr>"
  note T = analytics_handle_cached_catalog_connection_fresh
    [where m = module_start and srv = "MongoUp demo_log" and docs = demo_log and h = 0
       and m' = ?m1 and srv' = MongoDown and csrv = "Serving two_films" and c = mysql_start]
  note U = analytics_handle_cached_catalog_connection_fresh
    [where m = ?m1 and srv = "MongoUp []" and h = 0]
  have a: "mongo_collection module_start = None"
    by (rule conjunct1 [OF T])
  have "clients_made (snd (get_mongo_collection (MongoUp demo_log) module_start)) =
        Suc (clients_made module_start) \<and>
      fst (get_mongo_collection (MongoUp demo_log) module_start) = Some (clients_made module_start) \<and>
      mongo_collection (snd (get_mongo_collection (MongoUp demo_log) module_start)) =
        Some (clients_made module_start) \<and>
      fst (get_mongo_collection MongoDown module_start) = None \<and>
      mongo_collection (snd (get_mongo_collection MongoDown module_start)) = None"
    by (rule mp [OF conjunct1 [OF conjunct2 [OF T]] a])
  then have f: "fst (get_mongo_collection (MongoUp demo_log) module_start) = Some 0"
    by (simp add: module_start_def)
  have b: "get_mongo_collection (MongoUp demo_log) module_start = (Some 0, ?m1)"
    by (simp add: get_mongo_collection_def module_start_def)
  have "get_mongo_collection MongoDown ?m1 = (Some 0, ?m1) \<and>
      clients_made (snd (get_mongo_collection MongoDown ?m1)) = clients_made ?m1"
    by (rule mp [OF conjunct1 [OF conjunct2 [OF conjunct2 [OF conjunct2 [OF T]]]] b])
  then have c: "get_mongo_collection MongoDown ?m1 = (Some 0, ?m1)"
    by (rule conjunct1)
  have s: "mongo_collection ?m1 = Some 0" by simp
  have u: "get_mongo_collection (MongoUp []) ?m1 = (Some 0, ?m1)"
    by (rule mp [OF conjunct1 [OF conjunct2 [OF conjunct2 [OF U]]] s])
  have ne: "Serving two_films \<noteq> Unreachable" by simp
  have "fst (execute_query_connection (Serving two_films) mysql_start) =
      Some (connections_made mysql_start) \<and>
      connections_made (snd (execute_query_connection (Serving two_films) mysql_start)) =
        Suc (connections_made mysql_start) \<and>
      connections_made mysql_start \<notin>
        set (open_connections (snd (execute_query_connection (Serving two_films) mysql_start)))"
    by (rule mp [OF conjunct2 [OF conjunct2 [OF conjunct2 [OF conjunct2 [OF T]]]] ne])
  then have d: "fst (execute_query_connection (Serving two_films) mysql_start) = Some 0"
    by (simp add: mysql_start_def)
  from a f b c u d show ?thesis by (intro conjI)
qed

text \<open>
  C7 as stated fails for the catalog handle: two calls of \<^verbatim>\<open>execute_query\<close> in a row
  work on two different connections, and none stays open between them.
\<close>

theorem catalog_connection_not_cached:
  "fst (execute_query_connection (Serving two_films) mysql_start) = Some 0 \<and>
   fst (execute_query_connection (Serving two_films)
          (snd (execute_query_connection (Serving two_films) mysql_start))) = Some 1 \<and>
   fst (execute_query_connection (Serving two_films) mysql_start) \<noteq>
   fst (execute_query_connection (Serving two_films)
          (snd (execute_query_connection (Serving two_films) mysql_start))) \<and>
   open_connections (snd (execute_query_connection (Serving two_films) mysql_start)) = []"
  by (simp add: execute_query_connection_def get_db_connection_def mysql_start_def)

section \<open>Properties of the presenter\<close>

lemma truncate_text_ok: "text_or_empty v \<Longrightarrow> \<exists>a. truncate_text v n = Inr a"
  by (cases v) (simp_all add: truncate_text_def text_or_empty_def)

lemma render_row_well_formed:
  assumes "well_formed movie"
  shows "\<exists>row. render_row movie = Inr row"
proof (cases movie)
  case (Dict d)
  with assms have "text_or_empty (get_or_empty d ''actors'')"
    by (simp add: well_formed_def)
  then obtain a where "truncate_text (get_or_empty d ''actors'') 85 = Inr a"
    using truncate_text_ok by blast
  with Dict show ?thesis
    by (simp add: render_row_def add_row_def)
next
  case (Tuple vs)
  with assms have l: "5 \<le> length vs" and t: "text_or_empty (vs ! 4)"
    by (simp_all add: well_formed_def)
  let ?row = "(take 5 vs)[2 := PStr (color_rating (take 5 vs ! 2))]"
  from l have len: "length ?row = 5" by simp
  from l have "?row ! 4 = vs ! 4" by simp
  with t obtain a where "truncate_text (?row ! 4) 85 = Inr a"
    using truncate_text_ok by metis
  with Tuple l len show ?thesis
    by (simp add: render_row_def add_row_def Let_def)
next
  case Other
  with assms show ?thesis by (simp add: well_formed_def)
qed

lemma render_rows_unsupported:
  "list_all well_formed pre \<Longrightarrow> render_rows (pre @ Other # post) = Inl UnsupportedDataFormat"
proof (induction pre)
  case Nil
  show ?case by (simp add: render_row_def)
next
  case (Cons r rs)
  then have "well_formed r" and rest: "render_rows (rs @ Other # post) = Inl UnsupportedDataFormat"
    by simp_all
  then obtain row where "render_row r = Inr row"
    using render_row_well_formed by blast
  with rest show ?case by simp
qed

lemma render_rows_fails:
  "Other \<in> set rows \<Longrightarrow> \<exists>e. render_rows rows = Inl e"
proof (induction rows)
  case Nil
  then show ?case by simp
next
  case (Cons r rs)
  show ?case
  proof (cases "render_row r")
    case (Inl e)
    then show ?thesis by simp
  next
    case (Inr row)
    then have "r \<noteq> Other" by (auto simp: render_row_def)
    with Cons.prems have "Other \<in> set rs" by simp
    with Cons.IH obtain e where "render_rows rs = Inl e" by blast
    with Inr show ?thesis by simp
  qed
qed

lemma slice_to_Nil [simp]: "slice_to n [] = []"
  by (simp add: slice_to_def)

text \<open>
  C9 (as amended). When a record that is neither a dict nor a tuple is among the rows
  \<^verbatim>\<open>format_results\<close> renders (\<^verbatim>\<open>results[:max_rows]\<close>), the call ends in an exception
  and prints nothing: it never degrades to an empty or partial table. The exception is the
  \<^verbatim>\<open>ValueError("Unsupported data format")\<close> when every row before the record is a
  well-formed film record, so that the loop reaches it.
\<close>

theorem format_results_unsupported:
  "(Other \<in> set (slice_to max_rows results) \<longrightarrow>
      (\<exists>e. format_results results max_rows = Inl e)) \<and>
   (slice_to max_rows results = pre @ Other # post \<and> list_all well_formed pre \<longrightarrow>
      format_results results max_rows = Inl UnsupportedDataFormat)"
proof (intro conjI impI)
  assume o: "Other \<in> set (slice_to max_rows results)"
  then have ne: "results \<noteq> []"
    by auto
  from o obtain e where "render_rows (slice_to max_rows results) = Inl e"
    using render_rows_fails by blast
  with ne have "format_results results max_rows = Inl e"
    by (simp add: format_results_def)
  then show "\<exists>e. format_results results max_rows = Inl e" ..
next
  assume a: "slice_to max_rows results = pre @ Other # post \<and> list_all well_formed pre"
  then have ne: "results \<noteq> []"
    by auto
  from a have "render_rows (slice_to max_rows results) = Inl UnsupportedDataFormat"
    by (simp add: render_rows_unsupported)
  with ne show "format_results results max_rows = Inl UnsupportedDataFormat"
    by (simp add: format_results_def)
qed

lemmas presenter_eval = format_results_def slice_to_def render_row_def truncate_text_def
  add_row_def get_or_empty_def dict_get_def color_rating_def py_str_def strip_def upper_def
  upper_char_def is_space_def well_formed_def text_or_empty_def
  LIGHTGREEN_EX_def LIGHTYELLOW_EX_def LIGHTRED_EX_def RESET_ALL_def

theorem format_results_unsupported_witness:
  "Other \<in> set (slice_to 10 [Dict [(''title'', PStr ''Inception''), (''actors'', PStr ''Elliot Page'')],
                              Other, Tuple []]) \<and>
   list_all well_formed [Dict [(''title'', PStr ''Inception''), (''actors'', PStr ''Elliot Page'')]] \<and>
   format_results [Dict [(''title'', PStr ''Inception''), (''actors'', PStr ''Elliot Page'')],
                   Other, Tuple []] 10 = Inl UnsupportedDataFormat"
proof -
  let ?d = "Dict [(''title'', PStr ''Inception''), (''actors'', PStr ''Elliot Page'')]"
  note T = format_results_unsupported
    [where max_rows = 10 and results = "[?d, Other, Tuple []]" and pre = "[?d]" and post = "[Tuple []]"]
  have m: "Other \<in> set (slice_to 10 [?d, Other, Tuple []])"
    by (simp add: slice_to_def)
  have w: "list_all well_formed [?d]"
    by (simp add: presenter_eval)
  have s: "slice_to 10 [?d, Other, Tuple []] = [?d] @ Other # [Tuple []]"
    by (simp add: slice_to_def)
  have "format_results [?d, Other, Tuple []] 10 = Inl UnsupportedDataFormat"
    by (rule mp [OF conjunct2 [OF T] conjI [OF s w]])
  with m w show ?thesis by (intro conjI)
qed

text \<open>
  C9 as stated fails: a dict whose actors value is an integer, in front of a record of
  unsupported shape, raises the \<^verbatim>\<open>TypeError\<close> of \<^verbatim>\<open>len\<close> in \<^verbatim>\<open>truncate_text\<close>
  before the loop reaches that record, so the exception is not the \<^verbatim>\<open>ValueError\<close>.
\<close>

theorem format_results_type_error_first:
  "Other \<in> set (slice_to 10 [Dict [(''actors'', PInt 5)], Other]) \<and>
   format_results [Dict [(''actors'', PInt 5)], Other] 10 = Inl LenOfInt \<and>
   format_results [Dict [(''actors'', PInt 5)], Other] 10 \<noteq> Inl UnsupportedDataFormat"
  by (simp add: presenter_eval)

section \<open>Properties of the application loop\<close>

lemma render_row_film_row: "\<exists>row. render_row (Dict (film_row_dict r)) = Inr row"
  by (rule render_row_well_formed)
     (simp add: well_formed_def film_row_dict_def get_or_empty_def dict_get_def text_or_empty_def)

lemma render_rows_all:
  "list_all well_formed rows \<Longrightarrow> \<exists>out. render_rows rows = Inr out"
proof (induction rows)
  case Nil
  show ?case by simp
next
  case (Cons r rs)
  then have "well_formed r" and "\<exists>out. render_rows rs = Inr out"
    by simp_all
  then obtain row out where "render_row r = Inr row" "render_rows rs = Inr out"
    using render_row_well_formed by blast
  then show ?case by simp
qed

lemma well_formed_film_row: "well_formed (Dict (film_row_dict r))"
  by (simp add: well_formed_def film_row_dict_def get_or_empty_def dict_get_def text_or_empty_def)

lemma list_all_slice_to: "list_all P xs \<Longrightarrow> list_all P (slice_to n xs)"
proof -
  assume a: "list_all P xs"
  have "set (slice_to n xs) \<subseteq> set xs"
    by (simp add: slice_to_def set_take_subset)
  with a show ?thesis
    unfolding list_all_iff by blast
qed

lemma format_results_film_rows:
  "\<exists>out. format_results (map (\<lambda>r. Dict (film_row_dict r)) results) max_rows = Inr out"
proof -
  have "list_all well_formed (map (\<lambda>r. Dict (film_row_dict r)) results)"
    by (simp add: list_all_iff well_formed_film_row)
  then have "list_all well_formed (slice_to max_rows (map (\<lambda>r. Dict (film_row_dict r)) results))"
    by (rule list_all_slice_to)
  then obtain rows where
    "render_rows (slice_to max_rows (map (\<lambda>r. Dict (film_row_dict r)) results)) = Inr rows"
    using render_rows_all by blast
  then show ?thesis
    by (simp add: format_results_def)
qed

lemma log_search_up:
  "\<exists>m'. log_search now search_type params c (MongoUp docs, m) =
     (True, MongoUp (docs @ [\<lparr>ev_timestamp = now, ev_search_type = search_type,
                              ev_params = params, ev_results_count = c\<rparr>]), m')"
proof -
  obtain h m' where "get_mongo_collection (MongoUp docs) m = (Some h, m')"
    using get_mongo_collection_up by blast
  then show ?thesis
    by (simp add: log_search_def)
qed

lemma log_search_events:
  "log_search now search_type params c an = (ok, an') \<Longrightarrow>
   stored_events (fst an') = stored_events (fst an) @
     (if ok then [\<lparr>ev_timestamp = now, ev_search_type = search_type,
                    ev_params = params, ev_results_count = c\<rparr>] else [])"
  by (cases "fst an")
     (auto simp: log_search_def stored_events_def split: prod.splits option.splits)

text \<open>
  C8. A pass of the keyword loop at page \<open>page\<close> issues the catalog query with the
  offset \<open>(page - 1) * 10\<close>, and the event it logs (the analytics store being up)
  stores the page parameter \<open>page + 1\<close>, one more than the page fetched.
\<close>

theorem keyword_page_logs_next_page:
  "\<exists>pv m'.
     keyword_page cat now kw page (MongoUp docs, m) =
       Inr (pv,
            MongoUp (docs @ [\<lparr>ev_timestamp = now, ev_search_type = ''keyword'',
                               ev_params = [(''keyword'', PStr kw), (''page'', PInt (page + 1))],
                               ev_results_count = int (length (pv_results pv))\<rparr>]),
            m') \<and>
     pv_logged pv \<and>
     pv_offset pv = (page - 1) * 10 \<and>
     pv_results pv = search_by_keyword cat kw 10 ((page - 1) * 10)"
proof -
  let ?results = "search_by_keyword cat kw 10 ((page - 1) * 10)"
  obtain out where f: "format_results (map (\<lambda>r. Dict (film_row_dict r)) ?results) 10 = Inr out"
    using format_results_film_rows by blast
  obtain m' where l: "log_search now ''keyword''
      [(''keyword'', PStr kw), (''page'', PInt (page + 1))] (int (length ?results)) (MongoUp docs, m) =
     (True, MongoUp (docs @ [\<lparr>ev_timestamp = now, ev_search_type = ''keyword'',
                               ev_params = [(''keyword'', PStr kw), (''page'', PInt (page + 1))],
                               ev_results_count = int (length ?results)\<rparr>]), m')"
    using log_search_up by blast
  let ?pv = "\<lparr>pv_offset = (page - 1) * 10, pv_results = ?results, pv_printed = out,
               pv_logged = True\<rparr>"
  have "keyword_page cat now kw page (MongoUp docs, m) =
       Inr (?pv,
            MongoUp (docs @ [\<lparr>ev_timestamp = now, ev_search_type = ''keyword'',
                               ev_params = [(''keyword'', PStr kw), (''page'', PInt (page + 1))],
                               ev_results_count = int (length (pv_results ?pv))\<rparr>]),
            m') \<and>
     pv_logged ?pv \<and>
     pv_offset ?pv = (page - 1) * 10 \<and>
     pv_results ?pv = search_by_keyword cat kw 10 ((page - 1) * 10)"
    unfolding keyword_page_def Let_def f l by simp
  then show ?thesis by blast
qed


lemma keyword_page_view:
  assumes "keyword_page cat now kw page an = Inr (pv, an')"
  shows "pv_results pv = search_by_keyword cat kw 10 (pv_offset pv) \<and>
         (\<exists>new. stored_events (fst an') = stored_events (fst an) @ new \<and>
                map ev_results_count new = logged_counts [pv])"
proof -
  let ?results = "search_by_keyword cat kw 10 ((page - 1) * 10)"
  let ?params = "[(''keyword'', PStr kw), (''page'', PInt (page + 1))]"
  obtain out where f: "format_results (map (\<lambda>r. Dict (film_row_dict r)) ?results) 10 = Inr out"
    using format_results_film_rows by blast
  obtain ok an1 where l: "log_search now ''keyword'' ?params (int (length ?results)) an = (ok, an1)"
    by (cases "log_search now ''keyword'' ?params (int (length ?results)) an") blast
  from assms have pv: "pv = \<lparr>pv_offset = (page - 1) * 10, pv_results = ?results, pv_printed = out,
      pv_logged = ok\<rparr>" and an': "an' = an1"
    unfolding keyword_page_def Let_def f l by simp_all
  from log_search_events [OF l] show ?thesis
    by (cases ok) (simp_all add: pv an' logged_counts_def)
qed

lemma genre_year_page_view:
  assumes "genre_year_page cat now genre yf yt yc page an = Inr (pv, an')"
  shows "pv_results pv = search_by_genre_and_year cat genre yf yt 10 (pv_offset pv) \<and>
         (\<exists>new. stored_events (fst an') = stored_events (fst an) @ new \<and>
                map ev_results_count new = logged_counts [pv])"
proof -
  let ?results = "search_by_genre_and_year cat genre yf yt 10 ((page - 1) * 10)"
  let ?params = "[(''genre'', PStr genre), (''year_range'', PStr (year_param yc yf yt))]"
  obtain out where f: "format_results (map (\<lambda>r. Dict (film_row_dict r)) ?results) 10 = Inr out"
    using format_results_film_rows by blast
  obtain ok an1 where l: "log_search now ''genre_year'' ?params (int (length ?results)) an = (ok, an1)"
    by (cases "log_search now ''genre_year'' ?params (int (length ?results)) an") blast
  from assms have pv: "pv = \<lparr>pv_offset = (page - 1) * 10, pv_results = ?results, pv_printed = out,
      pv_logged = ok\<rparr>" and an': "an' = an1"
    unfolding genre_year_page_def Let_def f l by simp_all
  from log_search_events [OF l] show ?thesis
    by (cases ok) (simp_all add: pv an' logged_counts_def)
qed

lemma logged_counts_Cons: "logged_counts (pv # pvs) = logged_counts [pv] @ logged_counts pvs"
  by (simp add: logged_counts_def)

lemma keyword_loop_views:
  "keyword_loop cat kw page inputs an = Inr (pvs, an') \<Longrightarrow>
   list_all (\<lambda>pv. pv_results pv = search_by_keyword cat kw 10 (pv_offset pv)) pvs \<and>
   (\<exists>new. stored_events (fst an') = stored_events (fst an) @ new \<and>
          map ev_results_count new = logged_counts pvs)"
proof (induction inputs arbitrary: page an pvs an')
  case Nil
  then show ?case by (simp add: logged_counts_def)
next
  case (Cons input inputs)
  obtain now nav where input: "input = (now, nav)" by (cases input)
  from Cons.prems obtain pv an1 where p: "keyword_page cat now kw page an = Inr (pv, an1)"
    unfolding input by (cases "keyword_page cat now kw page an") auto
  note v = keyword_page_view [OF p]
  then obtain new1 where n1: "stored_events (fst an1) = stored_events (fst an) @ new1"
    "map ev_results_count new1 = logged_counts [pv]"
    by blast
  show ?case
  proof (cases "navigate nav page")
    case None
    with Cons.prems p have "pvs = [pv]" "an' = an1"
      unfolding input by simp_all
    with v show ?thesis by simp
  next
    case (Some page')
    with Cons.prems p obtain pvs1 where r: "keyword_loop cat kw page' inputs an1 = Inr (pvs1, an')"
      and pvs: "pvs = pv # pvs1"
      unfolding input by (cases "keyword_loop cat kw page' inputs an1") auto
    from Cons.IH [OF r] obtain new2 where
      a: "list_all (\<lambda>pv. pv_results pv = search_by_keyword cat kw 10 (pv_offset pv)) pvs1" and
      n2: "stored_events (fst an') = stored_events (fst an1) @ new2"
      "map ev_results_count new2 = logged_counts pvs1"
      by blast
    have "stored_events (fst an') = stored_events (fst an) @ (new1 @ new2) \<and>
          map ev_results_count (new1 @ new2) = logged_counts pvs"
      using n1 n2 by (simp add: pvs logged_counts_Cons [of pv pvs1])
    then have "\<exists>new. stored_events (fst an') = stored_events (fst an) @ new \<and>
          map ev_results_count new = logged_counts pvs"
      by (rule exI)
    with a v show ?thesis by (simp add: pvs)
  qed
qed

lemma genre_year_loop_views:
  "genre_year_loop cat genre yf yt yc page inputs an = Inr (pvs, an') \<Longrightarrow>
   list_all (\<lambda>pv. pv_results pv = search_by_genre_and_year cat genre yf yt 10 (pv_offset pv)) pvs \<and>
   (\<exists>new. stored_events (fst an') = stored_events (fst an) @ new \<and>
          map ev_results_count new = logged_counts pvs)"
proof (induction inputs arbitrary: page an pvs an')
  case Nil
  then show ?case by (simp add: logged_counts_def)
next
  case (Cons input inputs)
  obtain now nav where input: "input = (now, nav)" by (cases input)
  from Cons.prems obtain pv an1 where
    p: "genre_year_page cat now genre yf yt yc page an = Inr (pv, an1)"
    unfolding input by (cases "genre_year_page cat now genre yf yt yc page an") auto
  note v = genre_year_page_view [OF p]
  then obtain new1 where n1: "stored_events (fst an1) = stored_events (fst an) @ new1"
    "map ev_results_count new1 = logged_counts [pv]"
    by blast
  show ?case
  proof (cases "navigate nav page")
    case None
    with Cons.prems p have "pvs = [pv]" "an' = an1"
      unfolding input by simp_all
    with v show ?thesis by simp
  next
    case (Some page')
    with Cons.prems p obtain pvs1 where
      r: "genre_year_loop cat genre yf yt yc page' inputs an1 = Inr (pvs1, an')"
      and pvs: "pvs = pv # pvs1"
      unfolding input by (cases "genre_year_loop cat genre yf yt yc page' inputs an1") auto
    from Cons.IH [OF r] obtain new2 where
      a: "list_all (\<lambda>pv. pv_results pv = search_by_genre_and_year cat genre yf yt 10 (pv_offset pv)) pvs1" and
      n2: "stored_events (fst an') = stored_events (fst an1) @ new2"
      "map ev_results_count new2 = logged_counts pvs1"
      by blast
    have "stored_events (fst an') = stored_events (fst an) @ (new1 @ new2) \<and>
          map ev_results_count (new1 @ new2) = logged_counts pvs"
      using n1 n2 by (simp add: pvs logged_counts_Cons [of pv pvs1])
    then have "\<exists>new. stored_events (fst an') = stored_events (fst an) @ new \<and>
          map ev_results_count new = logged_counts pvs"
      by (rule exI)
    with a v show ?thesis by (simp add: pvs)
  qed
qed

lemma keyword_page_returns: "\<exists>pv an'. keyword_page cat now kw page an = Inr (pv, an')"
proof -
  let ?results = "search_by_keyword cat kw 10 ((page - 1) * 10)"
  obtain out where f: "format_results (map (\<lambda>r. Dict (film_row_dict r)) ?results) 10 = Inr out"
    using format_results_film_rows by blast
  show ?thesis
    unfolding keyword_page_def Let_def f by (simp split: prod.splits)
qed

lemma genre_year_page_returns:
  "\<exists>pv an'. genre_year_page cat now genre yf yt yc page an = Inr (pv, an')"
proof -
  let ?results = "search_by_genre_and_year cat genre yf yt 10 ((page - 1) * 10)"
  obtain out where f: "format_results (map (\<lambda>r. Dict (film_row_dict r)) ?results) 10 = Inr out"
    using format_results_film_rows by blast
  show ?thesis
    unfolding genre_year_page_def Let_def f by (simp split: prod.splits)
qed

lemma keyword_loop_returns: "\<exists>pvs an'. keyword_loop cat kw page inputs an = Inr (pvs, an')"
proof (induction inputs arbitrary: page an)
  case Nil
  show ?case by simp
next
  case (Cons input inputs)
  obtain now nav where input: "input = (now, nav)" by (cases input)
  obtain pv an1 where p: "keyword_page cat now kw page an = Inr (pv, an1)"
    using keyword_page_returns by blast
  show ?case
  proof (cases "navigate nav page")
    case None
    with p show ?thesis by (simp add: input)
  next
    case (Some page')
    from Cons.IH [of page' an1] obtain pvs an' where
      "keyword_loop cat kw page' inputs an1 = Inr (pvs, an')" by blast
    with p Some show ?thesis by (simp add: input)
  qed
qed

lemma genre_year_loop_returns:
  "\<exists>pvs an'. genre_year_loop cat genre yf yt yc page inputs an = Inr (pvs, an')"
proof (induction inputs arbitrary: page an)
  case Nil
  show ?case by simp
next
  case (Cons input inputs)
  obtain now nav where input: "input = (now, nav)" by (cases input)
  obtain pv an1 where p: "genre_year_page cat now genre yf yt yc page an = Inr (pv, an1)"
    using genre_year_page_returns by blast
  show ?case
  proof (cases "navigate nav page")
    case None
    with p show ?thesis by (simp add: input)
  next
    case (Some page')
    from Cons.IH [of page' an1] obtain pvs an' where
      "genre_year_loop cat genre yf yt yc page' inputs an1 = Inr (pvs, an')" by blast
    with p Some show ?thesis by (simp add: input)
  qed
qed

lemma keyword_page_up:
  "\<exists>out m'. keyword_page cat now kw page (MongoUp docs, m) =
     Inr (\<lparr>pv_offset = (page - 1) * 10,
           pv_results = search_by_keyword cat kw 10 ((page - 1) * 10),
           pv_printed = out, pv_logged = True\<rparr>,
          MongoUp (docs @ [\<lparr>ev_timestamp = now, ev_search_type = ''keyword'',
                             ev_params = [(''keyword'', PStr kw), (''page'', PInt (page + 1))],
                             ev_results_count =
                               int (length (search_by_keyword cat kw 10 ((page - 1) * 10)))\<rparr>]),
          m')"
proof -
  let ?results = "search_by_keyword cat kw 10 ((page - 1) * 10)"
  obtain out where f: "format_results (map (\<lambda>r. Dict (film_row_dict r)) ?results) 10 = Inr out"
    using format_results_film_rows by blast
  obtain m' where l: "log_search now ''keyword''
      [(''keyword'', PStr kw), (''page'', PInt (page + 1))] (int (length ?results)) (MongoUp docs, m) =
     (True, MongoUp (docs @ [\<lparr>ev_timestamp = now, ev_search_type = ''keyword'',
                               ev_params = [(''keyword'', PStr kw), (''page'', PInt (page + 1))],
                               ev_results_count = int (length ?results)\<rparr>]), m')"
    using log_search_up by blast
  show ?thesis
    unfolding keyword_page_def Let_def f l by simp
qed

lemma genre_year_page_up:
  "\<exists>out m'. genre_year_page cat now genre yf yt yc page (MongoUp docs, m) =
     Inr (\<lparr>pv_offset = (page - 1) * 10,
           pv_results = search_by_genre_and_year cat genre yf yt 10 ((page - 1) * 10),
           pv_printed = out, pv_logged = True\<rparr>,
          MongoUp (docs @ [\<lparr>ev_timestamp = now, ev_search_type = ''genre_year'',
                             ev_params = [(''genre'', PStr genre),
                                          (''year_range'', PStr (year_param yc yf yt))],
                             ev_results_count =
                               int (length (search_by_genre_and_year cat genre yf yt 10
                                              ((page - 1) * 10)))\<rparr>]),
          m')"
proof -
  let ?results = "search_by_genre_and_year cat genre yf yt 10 ((page - 1) * 10)"
  let ?params = "[(''genre'', PStr genre), (''year_range'', PStr (year_param yc yf yt))]"
  obtain out where f: "format_results (map (\<lambda>r. Dict (film_row_dict r)) ?results) 10 = Inr out"
    using format_results_film_rows by blast
  obtain m' where l: "log_search now ''genre_year'' ?params (int (length ?results)) (MongoUp docs, m) =
     (True, MongoUp (docs @ [\<lparr>ev_timestamp = now, ev_search_type = ''genre_year'',
                               ev_params = ?params,
                               ev_results_count = int (length ?results)\<rparr>]), m')"
    using log_search_up by blast
  show ?thesis
    unfolding genre_year_page_def Let_def f l by simp
qed

lemma keyword_loop_up:
  "keyword_loop cat kw page inputs (MongoUp docs, m) = Inr (pvs, an') \<Longrightarrow>
   map pv_offset pvs = map (\<lambda>p. (p - 1) * 10) (visited_pages page inputs) \<and>
   map pv_results pvs =
     map (\<lambda>p. search_by_keyword cat kw 10 ((p - 1) * 10)) (visited_pages page inputs) \<and>
   list_all pv_logged pvs \<and>
   (\<exists>new m'. an' = (MongoUp (docs @ new), m') \<and>
      map ev_search_type new = map (\<lambda>p. ''keyword'') (visited_pages page inputs) \<and>
      map ev_results_count new =
        map (\<lambda>p. int (length (search_by_keyword cat kw 10 ((p - 1) * 10))))
          (visited_pages page inputs))"
proof (induction inputs arbitrary: page docs m pvs an')
  case Nil
  then have "pvs = []" "an' = (MongoUp (docs @ []), m)" by simp_all
  then show ?case by simp
next
  case (Cons input inputs)
  obtain now nav where input: "input = (now, nav)" by (cases input)
  let ?R = "search_by_keyword cat kw 10 ((page - 1) * 10)"
  let ?e = "\<lparr>ev_timestamp = now, ev_search_type = ''keyword'',
             ev_params = [(''keyword'', PStr kw), (''page'', PInt (page + 1))],
             ev_results_count = int (length ?R)\<rparr>"
  obtain out m1 where p: "keyword_page cat now kw page (MongoUp docs, m) =
     Inr (\<lparr>pv_offset = (page - 1) * 10, pv_results = ?R, pv_printed = out, pv_logged = True\<rparr>,
          MongoUp (docs @ [?e]), m1)"
    using keyword_page_up by blast
  let ?pv = "\<lparr>pv_offset = (page - 1) * 10, pv_results = ?R, pv_printed = out, pv_logged = True\<rparr>"
  show ?case
  proof (cases "navigate nav page")
    case None
    with Cons.prems p have r: "pvs = [?pv]" "an' = (MongoUp (docs @ [?e]), m1)"
      unfolding input by simp_all
    have "an' = (MongoUp (docs @ [?e]), m1) \<and>
      map ev_search_type [?e] = map (\<lambda>p. ''keyword'') (visited_pages page (input # inputs)) \<and>
      map ev_results_count [?e] =
        map (\<lambda>p. int (length (search_by_keyword cat kw 10 ((p - 1) * 10))))
          (visited_pages page (input # inputs))"
      using None r(2) by (simp add: input)
    then have "\<exists>new m'. an' = (MongoUp (docs @ new), m') \<and>
      map ev_search_type new = map (\<lambda>p. ''keyword'') (visited_pages page (input # inputs)) \<and>
      map ev_results_count new =
        map (\<lambda>p. int (length (search_by_keyword cat kw 10 ((p - 1) * 10))))
          (visited_pages page (input # inputs))"
      by (intro exI)
    moreover have "map pv_offset pvs = map (\<lambda>p. (p - 1) * 10) (visited_pages page (input # inputs))"
      "map pv_results pvs =
        map (\<lambda>p. search_by_keyword cat kw 10 ((p - 1) * 10)) (visited_pages page (input # inputs))"
      "list_all pv_logged pvs"
      using None by (simp_all add: r(1) input)
    ultimately show ?thesis by (intro conjI)
  next
    case (Some page')
    with Cons.prems p obtain pvs1 where
      r: "keyword_loop cat kw page' inputs (MongoUp (docs @ [?e]), m1) = Inr (pvs1, an')"
      and pvs: "pvs = ?pv # pvs1"
      unfolding input
      by (cases "keyword_loop cat kw page' inputs (MongoUp (docs @ [?e]), m1)") auto
    from Cons.IH [OF r] obtain new2 m' where
      o: "map pv_offset pvs1 = map (\<lambda>p. (p - 1) * 10) (visited_pages page' inputs)"
      and rs: "map pv_results pvs1 =
        map (\<lambda>p. search_by_keyword cat kw 10 ((p - 1) * 10)) (visited_pages page' inputs)"
      and lg: "list_all pv_logged pvs1"
      and an: "an' = (MongoUp ((docs @ [?e]) @ new2), m')"
      and ty: "map ev_search_type new2 = map (\<lambda>p. ''keyword'') (visited_pages page' inputs)"
      and cn: "map ev_results_count new2 =
        map (\<lambda>p. int (length (search_by_keyword cat kw 10 ((p - 1) * 10))))
          (visited_pages page' inputs)"
      by blast
    have "an' = (MongoUp (docs @ (?e # new2)), m') \<and>
      map ev_search_type (?e # new2) = map (\<lambda>p. ''keyword'') (visited_pages page (input # inputs)) \<and>
      map ev_results_count (?e # new2) =
        map (\<lambda>p. int (length (search_by_keyword cat kw 10 ((p - 1) * 10))))
          (visited_pages page (input # inputs))"
      using Some an ty cn by (simp add: input)
    then have "\<exists>new m'. an' = (MongoUp (docs @ new), m') \<and>
      map ev_search_type new = map (\<lambda>p. ''keyword'') (visited_pages page (input # inputs)) \<and>
      map ev_results_count new =
        map (\<lambda>p. int (length (search_by_keyword cat kw 10 ((p - 1) * 10))))
          (visited_pages page (input # inputs))"
      by (intro exI)
    moreover have "map pv_offset pvs = map (\<lambda>p. (p - 1) * 10) (visited_pages page (input # inputs))"
      "map pv_results pvs =
        map (\<lambda>p. search_by_keyword cat kw 10 ((p - 1) * 10)) (visited_pages page (input # inputs))"
      "list_all pv_logged pvs"
      using Some o rs lg by (simp_all add: pvs input)
    ultimately show ?thesis by (intro conjI)
  qed
qed

lemma genre_year_loop_up:
  "genre_year_loop cat genre yf yt yc page inputs (MongoUp docs, m) = Inr (pvs, an') \<Longrightarrow>
   map pv_offset pvs = map (\<lambda>p. (p - 1) * 10) (visited_pages page inputs) \<and>
   map pv_results pvs =
     map (\<lambda>p. search_by_genre_and_year cat genre yf yt 10 ((p - 1) * 10)) (visited_pages page inputs) \<and>
   list_all pv_logged pvs \<and>
   (\<exists>new m'. an' = (MongoUp (docs @ new), m') \<and>
      map ev_search_type new = map (\<lambda>p. ''genre_year'') (visited_pages page inputs) \<and>
      map ev_results_count new =
        map (\<lambda>p. int (length (search_by_genre_and_year cat genre yf yt 10 ((p - 1) * 10))))
          (visited_pages page inputs))"
proof (induction inputs arbitrary: page docs m pvs an')
  case Nil
  then have "pvs = []" "an' = (MongoUp (docs @ []), m)" by simp_all
  then show ?case by simp
next
  case (Cons input inputs)
  obtain now nav where input: "input = (now, nav)" by (cases input)
  let ?R = "search_by_genre_and_year cat genre yf yt 10 ((page - 1) * 10)"
  let ?e = "\<lparr>ev_timestamp = now, ev_search_type = ''genre_year'',
             ev_params = [(''genre'', PStr genre), (''year_range'', PStr (year_param yc yf yt))],
             ev_results_count = int (length ?R)\<rparr>"
  obtain out m1 where p: "genre_year_page cat now genre yf yt yc page (MongoUp docs, m) =
     Inr (\<lparr>pv_offset = (page - 1) * 10, pv_results = ?R, pv_printed = out, pv_logged = True\<rparr>,
          MongoUp (docs @ [?e]), m1)"
    using genre_year_page_up by blast
  let ?pv = "\<lparr>pv_offset = (page - 1) * 10, pv_results = ?R, pv_printed = out, pv_logged = True\<rparr>"
  show ?case
  proof (cases "navigate nav page")
    case None
    with Cons.prems p have r: "pvs = [?pv]" "an' = (MongoUp (docs @ [?e]), m1)"
      unfolding input by simp_all
    have "an' = (MongoUp (docs @ [?e]), m1) \<and>
      map ev_search_type [?e] = map (\<lambda>p. ''genre_year'') (visited_pages page (input # inputs)) \<and>
      map ev_results_count [?e] =
        map (\<lambda>p. int (length (search_by_genre_and_year cat genre yf yt 10 ((p - 1) * 10))))
          (visited_pages page (input # inputs))"
      using None r(2) by (simp add: input)
    then have "\<exists>new m'. an' = (MongoUp (docs @ new), m') \<and>
      map ev_search_type new = map (\<lambda>p. ''genre_year'') (visited_pages page (input # inputs)) \<and>
      map ev_results_count new =
        map (\<lambda>p. int (length (search_by_genre_and_year cat genre yf yt 10 ((p - 1) * 10))))
          (visited_pages page (input # inputs))"
      by (intro exI)
    moreover have "map pv_offset pvs = map (\<lambda>p. (p - 1) * 10) (visited_pages page (input # inputs))"
      "map pv_results pvs =
        map (\<lambda>p. search_by_genre_and_year cat genre yf yt 10 ((p - 1) * 10)) (visited_pages page (input # inputs))"
      "list_all pv_logged pvs"
      using None by (simp_all add: r(1) input)
    ultimately show ?thesis by (intro conjI)
  next
    case (Some page')
    with Cons.prems p obtain pvs1 where
      r: "genre_year_loop cat genre yf yt yc page' inputs (MongoUp (docs @ [?e]), m1) = Inr (pvs1, an')"
      and pvs: "pvs = ?pv # pvs1"
      unfolding input
      by (cases "genre_year_loop cat genre yf yt yc page' inputs (MongoUp (docs @ [?e]), m1)") auto
    from Cons.IH [OF r] obtain new2 m' where
      o: "map pv_offset pvs1 = map (\<lambda>p. (p - 1) * 10) (visited_pages page' inputs)"
      and rs: "map pv_results pvs1 =
        map (\<lambda>p. search_by_genre_and_year cat genre yf yt 10 ((p - 1) * 10)) (visited_pages page' inputs)"
      and lg: "list_all pv_logged pvs1"
      and an: "an' = (MongoUp ((docs @ [?e]) @ new2), m')"
      and ty: "map ev_search_type new2 = map (\<lambda>p. ''genre_year'') (visited_pages page' inputs)"
      and cn: "map ev_results_count new2 =
        map (\<lambda>p. int (length (search_by_genre_and_year cat genre yf yt 10 ((p - 1) * 10))))
          (visited_pages page' inputs)"
      by blast
    have "an' = (MongoUp (docs @ (?e # new2)), m') \<and>
      map ev_search_type (?e # new2) = map (\<lambda>p. ''genre_year'') (visited_pages page (input # inputs)) \<and>
      map ev_results_count (?e # new2) =
        map (\<lambda>p. int (length (search_by_genre_and_year cat genre yf yt 10 ((p - 1) * 10))))
          (visited_pages page (input # inputs))"
      using Some an ty cn by (simp add: input)
    then have "\<exists>new m'. an' = (MongoUp (docs @ new), m') \<and>
      map ev_search_type new = map (\<lambda>p. ''genre_year'') (visited_pages page (input # inputs)) \<and>
      map ev_results_count new =
        map (\<lambda>p. int (length (search_by_genre_and_year cat genre yf yt 10 ((p - 1) * 10))))
          (visited_pages page (input # inputs))"
      by (intro exI)
    moreover have "map pv_offset pvs = map (\<lambda>p. (p - 1) * 10) (visited_pages page (input # inputs))"
      "map pv_results pvs =
        map (\<lambda>p. search_by_genre_and_year cat genre yf yt 10 ((p - 1) * 10)) (visited_pages page (input # inputs))"
      "list_all pv_logged pvs"
      using Some o rs lg by (simp_all add: pvs input)
    ultimately show ?thesis by (intro conjI)
  qed
qed


text \<open>
  C4. Both pagination loops always run through, and the events a run appends to the log
  carry, in order, the lengths of the pages that its logged search calls returned. With
  the analytics store up, every pass of either loop logs: the run makes one pass per
  visited page, each pass searches at the offset of its page, and the run appends one
  event per pass, of the loop's search type, whose result count is the length of the page
  that this pass's search call returned.
\<close>

theorem logged_count_is_page_length:
  "(\<exists>pvs an'. keyword_loop cat kw page inputs an = Inr (pvs, an')) \<and>
   (\<exists>pvs an'. genre_year_loop cat genre yf yt yc page inputs an = Inr (pvs, an')) \<and>
   (keyword_loop cat kw page inputs an = Inr (kpvs, kan) \<longrightarrow>
      list_all (\<lambda>pv. pv_results pv = search_by_keyword cat kw 10 (pv_offset pv)) kpvs \<and>
      (\<exists>new. stored_events (fst kan) = stored_events (fst an) @ new \<and>
             map ev_results_count new = logged_counts kpvs)) \<and>
   (genre_year_loop cat genre yf yt yc page inputs an = Inr (gpvs, gan) \<longrightarrow>
      list_all (\<lambda>pv. pv_results pv = search_by_genre_and_year cat genre yf yt 10 (pv_offset pv))
        gpvs \<and>
      (\<exists>new. stored_events (fst gan) = stored_events (fst an) @ new \<and>
             map ev_results_count new = logged_counts gpvs)) \<and>
   (keyword_loop cat kw page inputs (MongoUp docs, m) = Inr (upvs, uan) \<longrightarrow>
      map pv_offset upvs = map (\<lambda>p. (p - 1) * 10) (visited_pages page inputs) \<and>
      map pv_results upvs =
        map (\<lambda>p. search_by_keyword cat kw 10 ((p - 1) * 10)) (visited_pages page inputs) \<and>
      list_all pv_logged upvs \<and>
      (\<exists>new m'. uan = (MongoUp (docs @ new), m') \<and>
         map ev_search_type new = map (\<lambda>p. ''keyword'') (visited_pages page inputs) \<and>
         map ev_results_count new =
           map (\<lambda>p. int (length (search_by_keyword cat kw 10 ((p - 1) * 10))))
             (visited_pages page inputs))) \<and>
   (genre_year_loop cat genre yf yt yc page inputs (MongoUp docs, m) = Inr (vpvs, van) \<longrightarrow>
      map pv_offset vpvs = map (\<lambda>p. (p - 1) * 10) (visited_pages page inputs) \<and>
      map pv_results vpvs =
        map (\<lambda>p. search_by_genre_and_year cat genre yf yt 10 ((p - 1) * 10))
          (visited_pages page inputs) \<and>
      list_all pv_logged vpvs \<and>
      (\<exists>new m'. van = (MongoUp (docs @ new), m') \<and>
         map ev_search_type new = map (\<lambda>p. ''genre_year'') (visited_pages page inputs) \<and>
         map ev_results_count new =
           map (\<lambda>p. int (length (search_by_genre_and_year cat genre yf yt 10 ((p - 1) * 10))))
             (visited_pages page inputs)))"
  using keyword_loop_returns [of cat kw page inputs an]
    genre_year_loop_returns [of cat genre yf yt yc page inputs an]
    keyword_loop_views [of cat kw page inputs an kpvs kan]
    genre_year_loop_views [of cat genre yf yt yc page inputs an gpvs gan]
    keyword_loop_up [of cat kw page inputs docs m upvs uan]
    genre_year_loop_up [of cat genre yf yt yc page inputs docs m vpvs van]
  by (intro conjI impI) simp_all

lemmas app_eval = keyword_page_def genre_year_page_def navigate_def log_search_def
  film_row_dict_def logged_counts_def year_param_def str_int_def
  search_by_genre_and_year_def SEARCH_BY_GENRE_AND_YEAR_def SEARCH_BY_GENRE_AND_YEAR_groups_def
  genre_year_groups_def between_def

theorem logged_count_is_page_length_witness:
  "(\<exists>pvs m. keyword_loop (Serving two_films) ''e'' 1 [(100, ''2''), (200, ''3'')]
               (MongoUp [], module_start) = Inr (pvs, MongoUp
       [\<lparr>ev_timestamp = 100, ev_search_type = ''keyword'',
         ev_params = [(''keyword'', PStr ''e''), (''page'', PInt 2)], ev_results_count = 2\<rparr>,
        \<lparr>ev_timestamp = 200, ev_search_type = ''keyword'',
         ev_params = [(''keyword'', PStr ''e''), (''page'', PInt 3)], ev_results_count = 0\<rparr>], m) \<and>
      map pv_offset pvs = [0, 10] \<and>
      map (\<lambda>pv. length (pv_results pv)) pvs = [2, 0] \<and>
      list_all pv_logged pvs \<and>
      map pv_results pvs =
        map (\<lambda>p. search_by_keyword (Serving two_films) ''e'' 10 ((p - 1) * 10)) [1, 2]) \<and>
   (\<exists>pvs m. genre_year_loop (Serving two_films) ''Drama'' 2000 2010 ''2'' 1
               [(300, ''2''), (400, ''1''), (500, ''3'')] (MongoUp [], module_start) =
       Inr (pvs, MongoUp
       [\<lparr>ev_timestamp = 300, ev_search_type = ''genre_year'',
         ev_params = [(''genre'', PStr ''Drama''), (''year_range'', PStr ''2000-2010'')],
         ev_results_count = 2\<rparr>,
        \<lparr>ev_timestamp = 400, ev_search_type = ''genre_year'',
         ev_params = [(''genre'', PStr ''Drama''), (''year_range'', PStr ''2000-2010'')],
         ev_results_count = 0\<rparr>,
        \<lparr>ev_timestamp = 500, ev_search_type = ''genre_year'',
         ev_params = [(''genre'', PStr ''Drama''), (''year_range'', PStr ''2000-2010'')],
         ev_results_count = 2\<rparr>], m) \<and>
      map pv_offset pvs = [0, 10, 0] \<and>
      map (\<lambda>pv. map fr_title (pv_results pv)) pvs =
        [[''The Departed'', ''Inception''], [], [''The Departed'', ''Inception'']] \<and>
      list_all pv_logged pvs \<and>
      map pv_results pvs =
        map (\<lambda>p. search_by_genre_and_year (Serving two_films) ''Drama'' 2000 2010 10 ((p - 1) * 10))
          [1, 2, 1]) \<and>
   length (keyword_groups two_films ''%e%'') = 2"
proof -
  let ?kdocs = "[\<lparr>ev_timestamp = 100, ev_search_type = ''keyword'',
         ev_params = [(''keyword'', PStr ''e''), (''page'', PInt 2)], ev_results_count = 2\<rparr>,
        \<lparr>ev_timestamp = 200, ev_search_type = ''keyword'',
         ev_params = [(''keyword'', PStr ''e''), (''page'', PInt 3)], ev_results_count = 0\<rparr>]"
  let ?gdocs = "[\<lparr>ev_timestamp = 300, ev_search_type = ''genre_year'',
         ev_params = [(''genre'', PStr ''Drama''), (''year_range'', PStr ''2000-2010'')],
         ev_results_count = 2\<rparr>,
        \<lparr>ev_timestamp = 400, ev_search_type = ''genre_year'',
         ev_params = [(''genre'', PStr ''Drama''), (''year_range'', PStr ''2000-2010'')],
         ev_results_count = 0\<rparr>,
        \<lparr>ev_timestamp = 500, ev_search_type = ''genre_year'',
         ev_params = [(''genre'', PStr ''Drama''), (''year_range'', PStr ''2000-2010'')],
         ev_results_count = 2\<rparr>]"
  let ?kin = "[(100::nat, ''2''), (200, ''3'')]"
  let ?gin = "[(300::nat, ''2''), (400, ''1''), (500, ''3'')]"
  let ?krun = "keyword_loop (Serving two_films) ''e'' 1 ?kin (MongoUp [], module_start)"
  let ?grun = "genre_year_loop (Serving two_films) ''Drama'' 2000 2010 ''2'' 1 ?gin
                 (MongoUp [], module_start)"
  have l: "length (keyword_groups two_films ''%e%'') = 2"
    by (simp add: eval_defs)
  have kv: "visited_pages 1 ?kin = [1, 2]" and gv: "visited_pages 1 ?gin = [1, 2, 1]"
    by (simp_all add: navigate_def)
  have "\<exists>pvs m. ?krun = Inr (pvs, MongoUp ?kdocs, m) \<and> map pv_offset pvs = [0, 10] \<and>
      map (\<lambda>pv. length (pv_results pv)) pvs = [2, 0]"
    by (simp add: app_eval eval_defs presenter_eval analytics_eval Let_def)
  then have k: "\<exists>pvs m. ?krun = Inr (pvs, MongoUp ?kdocs, m) \<and> map pv_offset pvs = [0, 10] \<and>
      map (\<lambda>pv. length (pv_results pv)) pvs = [2, 0] \<and> list_all pv_logged pvs \<and>
      map pv_results pvs =
        map (\<lambda>p. search_by_keyword (Serving two_films) ''e'' 10 ((p - 1) * 10)) [1, 2]"
  proof (elim exE conjE)
    fix pvs m
    assume r: "?krun = Inr (pvs, MongoUp ?kdocs, m)"
      and o: "map pv_offset pvs = [0, 10]" "map (\<lambda>pv. length (pv_results pv)) pvs = [2, 0]"
    note T = logged_count_is_page_length
      [where cat = "Serving two_films" and kw = "''e''" and page = 1 and inputs = ?kin
         and docs = "[]" and m = module_start and upvs = pvs and uan = "(MongoUp ?kdocs, m)"]
    note U = mp [OF conjunct1 [OF conjunct2 [OF conjunct2 [OF conjunct2 [OF conjunct2 [OF T]]]]] r]
    have a: "list_all pv_logged pvs"
      by (rule conjunct1 [OF conjunct2 [OF conjunct2 [OF U]]])
    have b: "map pv_results pvs =
        map (\<lambda>p. search_by_keyword (Serving two_films) ''e'' 10 ((p - 1) * 10)) [1, 2]"
      using conjunct1 [OF conjunct2 [OF U]] by (simp only: kv)
    from r o a b have "?krun = Inr (pvs, MongoUp ?kdocs, m) \<and> map pv_offset pvs = [0, 10] \<and>
      map (\<lambda>pv. length (pv_results pv)) pvs = [2, 0] \<and> list_all pv_logged pvs \<and>
      map pv_results pvs =
        map (\<lambda>p. search_by_keyword (Serving two_films) ''e'' 10 ((p - 1) * 10)) [1, 2]"
      by (intro conjI)
    then show ?thesis by (intro exI)
  qed
  have "\<exists>pvs m. ?grun = Inr (pvs, MongoUp ?gdocs, m) \<and> map pv_offset pvs = [0, 10, 0] \<and>
      map (\<lambda>pv. map fr_title (pv_results pv)) pvs =
        [[''The Departed'', ''Inception''], [], [''The Departed'', ''Inception'']]"
    by (simp add: app_eval eval_defs presenter_eval analytics_eval Let_def)
  then have g: "\<exists>pvs m. ?grun = Inr (pvs, MongoUp ?gdocs, m) \<and> map pv_offset pvs = [0, 10, 0] \<and>
      map (\<lambda>pv. map fr_title (pv_results pv)) pvs =
        [[''The Departed'', ''Inception''], [], [''The Departed'', ''Inception'']] \<and>
      list_all pv_logged pvs \<and>
      map pv_results pvs =
        map (\<lambda>p. search_by_genre_and_year (Serving two_films) ''Drama'' 2000 2010 10 ((p - 1) * 10))
          [1, 2, 1]"
  proof (elim exE conjE)
    fix pvs m
    assume r: "?grun = Inr (pvs, MongoUp ?gdocs, m)"
      and o: "map pv_offset pvs = [0, 10, 0]"
        "map (\<lambda>pv. map fr_title (pv_results pv)) pvs =
          [[''The Departed'', ''Inception''], [], [''The Departed'', ''Inception'']]"
    note T = logged_count_is_page_length
      [where cat = "Serving two_films" and genre = "''Drama''" and yf = 2000 and yt = 2010
         and yc = "''2''" and page = 1 and inputs = ?gin
         and docs = "[]" and m = module_start and vpvs = pvs and van = "(MongoUp ?gdocs, m)"]
    note U = mp [OF conjunct2 [OF conjunct2 [OF conjunct2 [OF conjunct2 [OF conjunct2 [OF T]]]]] r]
    have a: "list_all pv_logged pvs"
      by (rule conjunct1 [OF conjunct2 [OF conjunct2 [OF U]]])
    have b: "map pv_results pvs =
        map (\<lambda>p. search_by_genre_and_year (Serving two_films) ''Drama'' 2000 2010 10 ((p - 1) * 10))
          [1, 2, 1]"
      using conjunct1 [OF conjunct2 [OF U]] by (simp only: gv)
    from r o a b have "?grun = Inr (pvs, MongoUp ?gdocs, m) \<and> map pv_offset pvs = [0, 10, 0] \<and>
      map (\<lambda>pv. map fr_title (pv_results pv)) pvs =
        [[''The Departed'', ''Inception''], [], [''The Departed'', ''Inception'']] \<and>
      list_all pv_logged pvs \<and>
      map pv_results pvs =
        map (\<lambda>p. search_by_genre_and_year (Serving two_films) ''Drama'' 2000 2010 10 ((p - 1) * 10))
          [1, 2, 1]"
      by (intro conjI)
    then show ?thesis by (intro exI)
  qed
  from k g l show ?thesis by (intro conjI)
qed


end
